theory Spec2Isabelle
  imports Main "HOL-Library.Word"
begin

unbundle bit_operations_syntax

section \<open>Preserved marks: the data model\<close>

text \<open>
  The development follows \<^verbatim>\<open>src/hotspot/share/gc/shared/preservedMarks.cpp\<close>.
  An object is known by its address, its header holds one mark word; both are
  machine words (LP64). \<^verbatim>\<open>size_t\<close> counters are 64-bit words and wrap; the
  \<^verbatim>\<open>uint\<close> slot count and the loop counters that range below it are natural
  numbers (a counter \<open>i < _num\<close> never wraps).
\<close>

type_synonym oop = "64 word"
type_synonym markWord = "64 word"
type_synonym size_t = "64 word"

text \<open>The heap, as far as this code sees it: the header of every object.\<close>

type_synonym heap = "oop \<Rightarrow> markWord"

text \<open>
  Assertions are modelled as in a debug build: a failed \<^verbatim>\<open>assert\<close> ends the run
  with the error that names it. A run that fails no assertion is the run of the
  product build.
\<close>

datatype error =
    DoNotReinitialize
  | PreCondition
  | ShouldHaveBeenInitialized
  | StacksShouldHaveBeenInitialized
  | StackExpectedEmpty
  | CacheExpectedEmpty
  | TotalSizeMismatch
  | PopFromEmptyStack
  | OutOfBounds

text \<open>
  Modelled from the spec: the object header accessor (\<^verbatim>\<open>oop.inline.hpp\<close> is not
  among the sources). The spec lists what is consumed: "read current mark word;
  write a new mark word; query/produce forwarding-reference encoding; read/write
  the forwardee reference". How a mark word encodes a forwarding reference is
  left open: the query and the decoding are parameters of the model.
\<close>

record header_encoding =
  encodes_forwarding :: "markWord \<Rightarrow> bool"
  decode_forwardee :: "markWord \<Rightarrow> oop"

definition is_forwarded :: "header_encoding \<Rightarrow> heap \<Rightarrow> oop \<Rightarrow> bool" where
  "is_forwarded enc h obj = encodes_forwarding enc (h obj)"

definition forwardee :: "header_encoding \<Rightarrow> heap \<Rightarrow> oop \<Rightarrow> oop" where
  "forwardee enc h obj = decode_forwardee enc (h obj)"

text \<open>
  Modelled from the spec: the saved entry \<^verbatim>\<open>OopAndMarkWord\<close> (declared in
  \<^verbatim>\<open>preservedMarks.hpp\<close>, not among the sources): "fields: \<open>target\<close> (a reference
  to a heap object, mutable), \<open>saved_mark\<close> (an opaque fixed-width word, the
  object's original header value)"; "\<open>write_back()\<close>: writes \<open>saved_mark\<close> into
  the header of \<open>target\<close>"; "\<open>get_object()\<close> / \<open>retarget(new_object)\<close>: accessors
  used only by the adjustment pass". The operations carry the names the source
  calls them by.
\<close>

record OopAndMarkWord =
  target :: oop
  saved_mark :: markWord

definition get_oop :: "OopAndMarkWord \<Rightarrow> oop" where
  "get_oop elem = target elem"

definition set_oop :: "OopAndMarkWord \<Rightarrow> oop \<Rightarrow> OopAndMarkWord" where
  "set_oop elem obj = elem\<lparr>target := obj\<rparr>"

definition set_mark :: "OopAndMarkWord \<Rightarrow> heap \<Rightarrow> heap" where
  "set_mark elem h = h(target elem := saved_mark elem)"

text \<open>
  Modelled from the spec: the segmented storage container \<^verbatim>\<open>Stack\<close>
  (\<^verbatim>\<open>utilities/stack.hpp\<close> is not among the sources). The contract consumed is
  "append (amortized O(1)), pop-or-empty-check, size query, free-segment-cache-size
  query (debug only), forward iteration yielding mutable element handles". The
  entries are kept most recent first. The per-worker stack has "no hidden
  retained capacity": neither append nor pop puts a segment into the cache, whose
  size is kept as a field because the source asserts on it.
\<close>

record Stack =
  entries :: "OopAndMarkWord list"
  cache_size :: nat

definition stack_new :: Stack where
  "stack_new = \<lparr>entries = [], cache_size = 0\<rparr>"

definition stack_is_empty :: "Stack \<Rightarrow> bool" where
  "stack_is_empty s = (entries s = [])"

definition stack_size :: "Stack \<Rightarrow> size_t" where
  "stack_size s = of_nat (length (entries s))"

definition stack_push :: "OopAndMarkWord \<Rightarrow> Stack \<Rightarrow> Stack" where
  "stack_push elem s = s\<lparr>entries := elem # entries s\<rparr>"

definition stack_pop :: "Stack \<Rightarrow> error + (OopAndMarkWord \<times> Stack)" where
  "stack_pop s =
     (case entries s of
        [] \<Rightarrow> Inl PopFromEmptyStack
      | elem # rest \<Rightarrow> Inr (elem, s\<lparr>entries := rest\<rparr>))"

text \<open>
  \<^verbatim>\<open>PreservedMarks\<close> has the stack as its only member. Modelled from the spec:
  its constructor, \<^verbatim>\<open>push\<close> and \<^verbatim>\<open>size\<close> (\<^verbatim>\<open>preservedMarks.inline.hpp\<close> is
  not among the sources): "\<open>push(object, mark)\<close>: appends a new Saved Entry";
  "\<open>size()\<close>: number of entries currently held", here \<open>size_marks\<close>.
\<close>

type_synonym PreservedMarks = Stack

definition PreservedMarks_new :: PreservedMarks where
  "PreservedMarks_new = stack_new"

definition push :: "oop \<Rightarrow> markWord \<Rightarrow> PreservedMarks \<Rightarrow> PreservedMarks" where
  "push obj m p = stack_push \<lparr>target = obj, saved_mark = m\<rparr> p"

definition size_marks :: "PreservedMarks \<Rightarrow> size_t" where
  "size_marks p = stack_size p"

text \<open>A sequence of pushes, the first pair of the list pushed first.\<close>

fun pushes :: "(oop \<times> markWord) list \<Rightarrow> PreservedMarks \<Rightarrow> PreservedMarks" where
  "pushes [] p = p"
| "pushes ((obj, m) # rest) p = pushes rest (push obj m p)"

section \<open>The per-worker stack\<close>

text \<open>\<^verbatim>\<open>PreservedMarks::assert_empty\<close>, lines 64-70.\<close>

definition PreservedMarks_assert_empty :: "PreservedMarks \<Rightarrow> error + unit" where
  "PreservedMarks_assert_empty p =
     (if \<not> stack_is_empty p then Inl StackExpectedEmpty
      else if \<not> cache_size p = 0 then Inl CacheExpectedEmpty
      else Inr ())"

text \<open>
  \<^verbatim>\<open>PreservedMarks::restore\<close>, lines 34-40: the loop pops an entry and writes its
  mark back until the stack is empty.
\<close>

function restore_loop :: "PreservedMarks \<Rightarrow> heap \<Rightarrow> error + (PreservedMarks \<times> heap)" where
  "restore_loop p h =
     (if \<not> stack_is_empty p then
        (case stack_pop p of
           Inl e \<Rightarrow> Inl e
         | Inr (elem, p') \<Rightarrow> restore_loop p' (set_mark elem h))
      else Inr (p, h))"
  by pat_completeness auto
termination
  by (relation "measure (\<lambda>(p, h). length (entries p))")
     (auto simp: stack_pop_def split: list.splits)

declare restore_loop.simps [simp del]

definition PreservedMarks_restore ::
  "PreservedMarks \<Rightarrow> heap \<Rightarrow> error + (PreservedMarks \<times> heap)" where
  "PreservedMarks_restore p h =
     (case restore_loop p h of
        Inl e \<Rightarrow> Inl e
      | Inr (p', h') \<Rightarrow>
          (case PreservedMarks_assert_empty p' of
             Inl e \<Rightarrow> Inl e
           | Inr _ \<Rightarrow> Inr (p', h')))"

text \<open>
  \<^verbatim>\<open>PreservedMarks::adjust_during_full_gc\<close>, lines 42-52. The iterator walks
  the entries from the most recent one; \<^verbatim>\<open>next_addr\<close> hands out the address of
  the entry at the iterator's position and moves on, and \<^verbatim>\<open>set_oop\<close> writes
  through that address. The heap is only read.
\<close>

function adjust_loop ::
  "header_encoding \<Rightarrow> heap \<Rightarrow> PreservedMarks \<Rightarrow> nat \<Rightarrow> PreservedMarks" where
  "adjust_loop enc h p i =
     (if i < length (entries p) then
        (let elem = entries p ! i;
             obj = get_oop elem
         in if is_forwarded enc h obj
            then adjust_loop enc h
                   (p\<lparr>entries := (entries p)[i := set_oop elem (forwardee enc h obj)]\<rparr>)
                   (i + 1)
            else adjust_loop enc h p (i + 1))
      else p)"
  by pat_completeness auto
termination
  by (relation "measure (\<lambda>(enc, h, p, i). length (entries p) - i)") auto

declare adjust_loop.simps [simp del]

definition PreservedMarks_adjust_during_full_gc ::
  "header_encoding \<Rightarrow> heap \<Rightarrow> PreservedMarks \<Rightarrow> PreservedMarks" where
  "PreservedMarks_adjust_during_full_gc enc h p = adjust_loop enc h p 0"

text \<open>
  \<^verbatim>\<open>PreservedMarks::restore_and_increment\<close>, lines 54-61. \<^verbatim>\<open>Atomic::add\<close>
  (\<^verbatim>\<open>runtime/atomic.hpp\<close>, not among the sources) is a parameter, applied to the
  counter and the value to add; \<open>Atomic_add\<close> below is the one the spec
  describes.
\<close>

definition PreservedMarks_restore_and_increment ::
  "(size_t \<Rightarrow> size_t \<Rightarrow> size_t) \<Rightarrow> PreservedMarks \<Rightarrow> heap \<Rightarrow> size_t
     \<Rightarrow> error + (PreservedMarks \<times> heap \<times> size_t)" where
  "PreservedMarks_restore_and_increment atomic_add p h total_size =
     (let stack_sz = size_marks p
      in case PreservedMarks_restore p h of
           Inl e \<Rightarrow> Inl e
         | Inr (p', h') \<Rightarrow>
             Inr (p', h', if stack_sz > 0 then atomic_add total_size stack_sz else total_size))"

text \<open>
  Modelled from the spec: the atomic counter primitive, "atomic add-and-return-previous
  (or add-only) on a word-sized shared counter".
\<close>

definition Atomic_add :: "size_t \<Rightarrow> size_t \<Rightarrow> size_t" where
  "Atomic_add dest add_value = dest + add_value"

section \<open>The forwarding-removal helper\<close>

text \<open>
  \<^verbatim>\<open>RemoveForwardedPointerClosure::do_object\<close>, lines 73-77. The static
  \<^verbatim>\<open>PreservedMarks::init_forwarded_mark\<close> (\<^verbatim>\<open>preservedMarks.inline.hpp\<close>, not
  among the sources) is a parameter: any transformer of the state \<open>'w\<close> of the
  virtual machine, of which the code reads the heap.
\<close>

definition RemoveForwardedPointerClosure_do_object ::
  "header_encoding \<Rightarrow> ('w \<Rightarrow> heap) \<Rightarrow> (oop \<Rightarrow> 'w \<Rightarrow> 'w) \<Rightarrow> oop \<Rightarrow> 'w \<Rightarrow> 'w" where
  "RemoveForwardedPointerClosure_do_object enc heap_of init_forwarded_mark obj w =
     (if is_forwarded enc (heap_of w) obj then init_forwarded_mark obj w else w)"

section \<open>The set of per-worker stacks\<close>

text \<open>
  The array of stacks remembers the arena it was allocated from. A null
  \<^verbatim>\<open>_stacks\<close> is \<open>None\<close>. \<^verbatim>\<open>num()\<close> reads the field \<open>num\<close>.
\<close>

datatype arena = CHeap | ResourceArea

record PaddedArray =
  arena :: arena
  slots :: "PreservedMarks list"

record PreservedMarksSet =
  in_c_heap :: bool
  num :: nat
  stacks :: "PaddedArray option"

text \<open>
  Modelled from the spec: the constructor of the set and \<^verbatim>\<open>get\<close>
  (\<^verbatim>\<open>preservedMarks.hpp\<close> is not among the sources). The arena is "decided once
  at construction", and a new set is in "the uninitialized state";
  "\<open>get(worker_id)\<close>: bounds-checked (debug) access to one slot". \<open>put\<close> is the
  write through the pointer that \<^verbatim>\<open>get\<close> returns.
\<close>

definition PreservedMarksSet_new :: "bool \<Rightarrow> PreservedMarksSet" where
  "PreservedMarksSet_new flag = \<lparr>in_c_heap = flag, num = 0, stacks = None\<rparr>"

definition get :: "PreservedMarksSet \<Rightarrow> nat \<Rightarrow> error + PreservedMarks" where
  "get s i =
     (case stacks s of
        None \<Rightarrow> Inl StacksShouldHaveBeenInitialized
      | Some arr \<Rightarrow>
          if \<not> num s > 0 then Inl StacksShouldHaveBeenInitialized
          else if \<not> i < num s then Inl PreCondition
          else if \<not> i < length (slots arr) then Inl OutOfBounds
          else Inr (slots arr ! i))"

definition put :: "PreservedMarksSet \<Rightarrow> nat \<Rightarrow> PreservedMarks \<Rightarrow> PreservedMarksSet" where
  "put s i p =
     (case stacks s of
        None \<Rightarrow> s
      | Some arr \<Rightarrow> s\<lparr>stacks := Some (arr\<lparr>slots := (slots arr)[i := p]\<rparr>)\<rparr>)"

text \<open>\<^verbatim>\<open>PreservedMarksSet::assert_empty\<close>, lines 168-173.\<close>

function assert_empty_loop :: "PreservedMarksSet \<Rightarrow> nat \<Rightarrow> error + unit" where
  "assert_empty_loop s i =
     (if i < num s then
        (case get s i of
           Inl e \<Rightarrow> Inl e
         | Inr p \<Rightarrow>
             (case PreservedMarks_assert_empty p of
                Inl e \<Rightarrow> Inl e
              | Inr _ \<Rightarrow> assert_empty_loop s (i + 1)))
      else Inr ())"
  by pat_completeness auto
termination
  by (relation "measure (\<lambda>(s, i). num s - i)") auto

declare assert_empty_loop.simps [simp del]

definition PreservedMarksSet_assert_empty :: "PreservedMarksSet \<Rightarrow> error + unit" where
  "PreservedMarksSet_assert_empty s =
     (if \<not> (stacks s \<noteq> None \<and> num s > 0) then Inl ShouldHaveBeenInitialized
      else assert_empty_loop s 0)"

text \<open>
  \<^verbatim>\<open>PreservedMarksSet::init\<close>, lines 79-93. Either allocation returns storage
  for \<open>num\<close> stacks or ends the virtual machine; the loop constructs the stack of
  every slot in turn.
\<close>

function construct_slots :: "nat \<Rightarrow> nat \<Rightarrow> PreservedMarks list" where
  "construct_slots i n =
     (if i < n then PreservedMarks_new # construct_slots (i + 1) n else [])"
  by pat_completeness auto
termination
  by (relation "measure (\<lambda>(i, n). n - i)") auto

declare construct_slots.simps [simp del]

definition PreservedMarksSet_init ::
  "nat \<Rightarrow> PreservedMarksSet \<Rightarrow> error + PreservedMarksSet" where
  "PreservedMarksSet_init n s =
     (if \<not> (stacks s = None \<and> num s = 0) then Inl DoNotReinitialize
      else if \<not> n > 0 then Inl PreCondition
      else
        (let a = (if in_c_heap s then CHeap else ResourceArea);
             s' = s\<lparr>stacks := Some \<lparr>arena = a, slots = construct_slots 0 n\<rparr>, num := n\<rparr>
         in case PreservedMarksSet_assert_empty s' of
              Inl e \<Rightarrow> Inl e
            | Inr _ \<Rightarrow> Inr s'))"

text \<open>
  \<^verbatim>\<open>PreservedMarksSet::reclaim\<close>, lines 151-165. The destructors and
  \<^verbatim>\<open>FREE_C_HEAP_ARRAY\<close> act on the array that the set lets go of in the same
  call; what remains of them in the state of the set is the null pointer.
\<close>

definition PreservedMarksSet_reclaim :: "PreservedMarksSet \<Rightarrow> error + PreservedMarksSet" where
  "PreservedMarksSet_reclaim s =
     (case PreservedMarksSet_assert_empty s of
        Inl e \<Rightarrow> Inl e
      | Inr _ \<Rightarrow> Inr (s\<lparr>stacks := None, num := 0\<rparr>))"

section \<open>The parallel restore task\<close>

text \<open>
  Modelled from the spec: the parallel task distributor
  \<^verbatim>\<open>SequentialSubTasksDone\<close> (\<^verbatim>\<open>gc/shared/workgroup.hpp\<close> is not among the
  sources): it is configured "with the total slot count and the number of
  participating threads"; a thread "claims the next unclaimed slot index from a
  shared, monotonically-advancing counter"; "a thread that finds no more
  unclaimed indices signals completion and exits".
\<close>

record SequentialSubTasksDone =
  n_tasks :: nat
  n_threads :: nat
  n_claimed :: nat
  n_completed :: nat

definition sub_tasks_new :: "nat \<Rightarrow> nat \<Rightarrow> SequentialSubTasksDone" where
  "sub_tasks_new worker_num tasks =
     \<lparr>n_tasks = tasks, n_threads = worker_num, n_claimed = 0, n_completed = 0\<rparr>"

definition try_claim_task ::
  "SequentialSubTasksDone \<Rightarrow> nat option \<times> SequentialSubTasksDone" where
  "try_claim_task st =
     (if n_claimed st < n_tasks st
      then (Some (n_claimed st), st\<lparr>n_claimed := n_claimed st + 1\<rparr>)
      else (None, st))"

definition all_tasks_completed :: "SequentialSubTasksDone \<Rightarrow> SequentialSubTasksDone" where
  "all_tasks_completed st = st\<lparr>n_completed := n_completed st + 1\<rparr>"

text \<open>
  What the threads of a running \<^verbatim>\<open>ParRestoreTask\<close> share: the distributor, the
  set and the counter the task points to, the heap, and which workers have
  returned from \<^verbatim>\<open>work\<close>.
\<close>

record par_state =
  sub_tasks :: SequentialSubTasksDone
  marks_set :: PreservedMarksSet
  heap_now :: heap
  total_now :: size_t
  returned :: "bool list"

text \<open>\<^verbatim>\<open>ParRestoreTask\<close>'s constructor, lines 110-118.\<close>

definition ParRestoreTask_new ::
  "nat \<Rightarrow> PreservedMarksSet \<Rightarrow> heap \<Rightarrow> size_t \<Rightarrow> par_state" where
  "ParRestoreTask_new worker_num s h total_size =
     \<lparr>sub_tasks = sub_tasks_new worker_num (num s), marks_set = s, heap_now = h,
      total_now = total_size, returned = replicate worker_num False\<rparr>"

text \<open>
  \<^verbatim>\<open>ParRestoreTask::work\<close>, lines 102-108. \<open>work_turn\<close> is one evaluation of the
  loop's condition, with the body when a task was claimed; it says whether the
  loop goes on. A claimed stack belongs to the claiming thread alone and the sum
  is added atomically, so a turn is taken as one step. \<open>ParRestoreTask_work\<close> is
  the loop run to its end.
\<close>

definition work_turn ::
  "(size_t \<Rightarrow> size_t \<Rightarrow> size_t) \<Rightarrow> par_state \<Rightarrow> error + (bool \<times> par_state)" where
  "work_turn atomic_add st =
     (case try_claim_task (sub_tasks st) of
        (Some task_id, sub') \<Rightarrow>
          (case get (marks_set st) task_id of
             Inl e \<Rightarrow> Inl e
           | Inr p \<Rightarrow>
               (case PreservedMarks_restore_and_increment atomic_add p
                       (heap_now st) (total_now st) of
                  Inl e \<Rightarrow> Inl e
                | Inr (p', h', total_size') \<Rightarrow>
                    Inr (True, st\<lparr>sub_tasks := sub',
                                  marks_set := put (marks_set st) task_id p',
                                  heap_now := h', total_now := total_size'\<rparr>)))
      | (None, sub') \<Rightarrow> Inr (False, st\<lparr>sub_tasks := all_tasks_completed sub'\<rparr>))"

function ParRestoreTask_work ::
  "(size_t \<Rightarrow> size_t \<Rightarrow> size_t) \<Rightarrow> nat \<Rightarrow> par_state \<Rightarrow> error + par_state" where
  "ParRestoreTask_work atomic_add worker_id st =
     (case work_turn atomic_add st of
        Inl e \<Rightarrow> Inl e
      | Inr (go_on, st') \<Rightarrow>
          if go_on then ParRestoreTask_work atomic_add worker_id st' else Inr st')"
  by pat_completeness auto
termination
  by (relation
        "measure (\<lambda>(a, w, st). n_tasks (sub_tasks st) - n_claimed (sub_tasks st))")
     (auto simp: work_turn_def try_claim_task_def
           split: if_splits sum.splits prod.splits option.splits)

declare ParRestoreTask_work.simps [simp del]

text \<open>
  Modelled from the spec: the thread pool \<^verbatim>\<open>WorkGang\<close> (\<^verbatim>\<open>gc/shared/workgroup.hpp\<close>
  is not among the sources). The task is "executed once per participating
  thread", and "claiming order across threads is undefined
  (first-available-wins)": the order in which the threads take their turns is
  the \<open>schedule\<close> of the gang, any list of worker numbers. When the schedule is
  used up, the workers that have not returned run on one after the other, so
  that \<open>run_task\<close> ends when every thread has returned from \<^verbatim>\<open>work\<close>.
\<close>

record WorkGang =
  active_workers :: nat
  schedule :: "nat list"

fun run_schedule ::
  "(size_t \<Rightarrow> size_t \<Rightarrow> size_t) \<Rightarrow> nat list \<Rightarrow> par_state \<Rightarrow> error + par_state" where
  "run_schedule atomic_add [] st = Inr st"
| "run_schedule atomic_add (w # ws) st =
     (if w < length (returned st) \<and> \<not> returned st ! w then
        (case work_turn atomic_add st of
           Inl e \<Rightarrow> Inl e
         | Inr (go_on, st') \<Rightarrow>
             run_schedule atomic_add ws
               (if go_on then st' else st'\<lparr>returned := (returned st')[w := True]\<rparr>))
      else run_schedule atomic_add ws st)"

fun finish_workers ::
  "(size_t \<Rightarrow> size_t \<Rightarrow> size_t) \<Rightarrow> nat list \<Rightarrow> par_state \<Rightarrow> error + par_state" where
  "finish_workers atomic_add [] st = Inr st"
| "finish_workers atomic_add (w # ws) st =
     (if w < length (returned st) \<and> \<not> returned st ! w then
        (case ParRestoreTask_work atomic_add w st of
           Inl e \<Rightarrow> Inl e
         | Inr st' \<Rightarrow>
             finish_workers atomic_add ws (st'\<lparr>returned := (returned st')[w := True]\<rparr>))
      else finish_workers atomic_add ws st)"

definition run_task ::
  "(size_t \<Rightarrow> size_t \<Rightarrow> size_t) \<Rightarrow> WorkGang \<Rightarrow> par_state \<Rightarrow> error + par_state" where
  "run_task atomic_add workers st =
     (case run_schedule atomic_add (schedule workers) st of
        Inl e \<Rightarrow> Inl e
      | Inr st' \<Rightarrow> finish_workers atomic_add [0..<active_workers workers] st')"

section \<open>Restoring the whole set\<close>

text \<open>
  \<^verbatim>\<open>PreservedMarksSet::restore\<close>, lines 121-149. The result carries the total
  that the source logs. A null \<^verbatim>\<open>workers\<close> is \<open>None\<close>.
\<close>

function size_before_loop :: "PreservedMarksSet \<Rightarrow> nat \<Rightarrow> size_t \<Rightarrow> error + size_t" where
  "size_before_loop s i total_size_before =
     (if i < num s then
        (case get s i of
           Inl e \<Rightarrow> Inl e
         | Inr p \<Rightarrow> size_before_loop s (i + 1) (total_size_before + size_marks p))
      else Inr total_size_before)"
  by pat_completeness auto
termination
  by (relation "measure (\<lambda>(s, i, t). num s - i)") auto

declare size_before_loop.simps [simp del]

function sequential_loop ::
  "PreservedMarksSet \<Rightarrow> heap \<Rightarrow> nat \<Rightarrow> size_t
     \<Rightarrow> error + (PreservedMarksSet \<times> heap \<times> size_t)" where
  "sequential_loop s h i total_size =
     (if i < num s then
        (case get s i of
           Inl e \<Rightarrow> Inl e
         | Inr p \<Rightarrow>
             (case PreservedMarks_restore p h of
                Inl e \<Rightarrow> Inl e
              | Inr (p', h') \<Rightarrow>
                  sequential_loop (put s i p') h' (i + 1)
                    (total_size + size_marks p)))
      else Inr (s, h, total_size))"
  by pat_completeness auto
termination
  by (relation "measure (\<lambda>(s, h, i, t). num s - i)")
     (auto simp: put_def split: option.splits)

declare sequential_loop.simps [simp del]

definition PreservedMarksSet_restore ::
  "(size_t \<Rightarrow> size_t \<Rightarrow> size_t) \<Rightarrow> WorkGang option \<Rightarrow> PreservedMarksSet \<Rightarrow> heap
     \<Rightarrow> error + (size_t \<times> PreservedMarksSet \<times> heap)" where
  "PreservedMarksSet_restore atomic_add workers s h =
     (case size_before_loop s 0 0 of
        Inl e \<Rightarrow> Inl e
      | Inr total_size_before \<Rightarrow>
          (case (case workers of
                   None \<Rightarrow> sequential_loop s h 0 0
                 | Some gang \<Rightarrow>
                     (case run_task atomic_add gang
                             (ParRestoreTask_new (active_workers gang) s h 0) of
                        Inl e \<Rightarrow> Inl e
                      | Inr st \<Rightarrow> Inr (marks_set st, heap_now st, total_now st))) of
             Inl e \<Rightarrow> Inl e
           | Inr (s', h', total_size) \<Rightarrow>
               (case PreservedMarksSet_assert_empty s' of
                  Inl e \<Rightarrow> Inl e
                | Inr _ \<Rightarrow>
                    if \<not> total_size = total_size_before then Inl TotalSizeMismatch
                    else Inr (total_size, s', h'))))"

section \<open>Vocabulary of the statements and proofs\<close>

text \<open>
  An encoding for the examples: the mark word of a forwarded object has its two
  low bits set and the address of the forwardee in the other bits.
\<close>

definition lock_bits_encoding :: header_encoding where
  "lock_bits_encoding =
     \<lparr>encodes_forwarding = (\<lambda>m. m AND 3 = 3), decode_forwardee = (\<lambda>m. m AND NOT 3)\<rparr>"

text \<open>
  The slots of a set, a set with other slots, a stack with its entries taken
  away, and the fields of a set that say nothing of what the slots hold.
\<close>

definition set_slots :: "PreservedMarksSet \<Rightarrow> PreservedMarks list" where
  "set_slots s = (case stacks s of None \<Rightarrow> [] | Some arr \<Rightarrow> slots arr)"

definition with_slots :: "PreservedMarksSet \<Rightarrow> PreservedMarks list \<Rightarrow> PreservedMarksSet" where
  "with_slots s xs =
     (case stacks s of None \<Rightarrow> s | Some arr \<Rightarrow> s\<lparr>stacks := Some (arr\<lparr>slots := xs\<rparr>)\<rparr>)"

definition emptied :: "PreservedMarks \<Rightarrow> PreservedMarks" where
  "emptied p = p\<lparr>entries := []\<rparr>"

definition set_frame :: "PreservedMarksSet \<Rightarrow> bool \<times> nat \<times> arena option" where
  "set_frame s = (in_c_heap s, num s, map_option arena (stacks s))"

text \<open>The invariant of the set: \<open>num\<close> is 0 exactly when the array pointer is null.\<close>

definition initialization_invariant :: "PreservedMarksSet \<Rightarrow> bool" where
  "initialization_invariant s = ((num s = 0) = (stacks s = None))"

text \<open>
  The state of a running parallel task, seen from the set \<open>s\<close>, the slots \<open>orig\<close>
  and the heap \<open>h0\<close> it started from: the tasks are claimed in the order of the
  slots; the slots claimed so far are restored and counted, the others are as
  they were; and once a worker has returned, every task is claimed.
\<close>

definition par_inv ::
  "PreservedMarksSet \<Rightarrow> PreservedMarks list \<Rightarrow> heap \<Rightarrow> par_state \<Rightarrow> bool" where
  "par_inv s orig h0 st =
     (n_claimed (sub_tasks st) \<le> length orig
      \<and> n_tasks (sub_tasks st) = length orig
      \<and> marks_set st =
          with_slots s (map emptied (take (n_claimed (sub_tasks st)) orig)
                        @ drop (n_claimed (sub_tasks st)) orig)
      \<and> total_now st = sum_list (map size_marks (take (n_claimed (sub_tasks st)) orig))
      \<and> heap_now st =
          fold (\<lambda>p. fold set_mark (entries p)) (take (n_claimed (sub_tasks st)) orig) h0
      \<and> (True \<in> set (returned st) \<longrightarrow> n_claimed (sub_tasks st) = length orig))"

section \<open>Restoring one stack\<close>

lemma restore_loop_eq:
  "restore_loop p h = Inr (p\<lparr>entries := []\<rparr>, fold set_mark (entries p) h)"
proof (induction "entries p" arbitrary: p h)
  case Nil
  then show ?case
    by (subst restore_loop.simps) (simp add: stack_is_empty_def)
next
  case (Cons elem rest)
  have "rest = entries (p\<lparr>entries := rest\<rparr>)" by simp
  from Cons.hyps(1) [OF this, of "set_mark elem h"] Cons.hyps(2) [symmetric]
  show ?case
    by (subst restore_loop.simps) (simp add: stack_is_empty_def stack_pop_def)
qed

lemma PreservedMarks_restore_eq:
  "cache_size p = 0 \<Longrightarrow>
   PreservedMarks_restore p h = Inr (p\<lparr>entries := []\<rparr>, fold set_mark (entries p) h)"
  by (simp add: PreservedMarks_restore_def restore_loop_eq PreservedMarks_assert_empty_def
        stack_is_empty_def)

lemma PreservedMarks_restore_cache:
  "cache_size p \<noteq> 0 \<Longrightarrow> PreservedMarks_restore p h = Inl CacheExpectedEmpty"
  by (simp add: PreservedMarks_restore_def restore_loop_eq PreservedMarks_assert_empty_def
        stack_is_empty_def)

lemma entries_pushes:
  "entries (pushes ps p) =
     rev (map (\<lambda>(obj, m). \<lparr>target = obj, saved_mark = m\<rparr>) ps) @ entries p"
  by (induction ps p rule: pushes.induct) (simp_all add: push_def stack_push_def)

lemma cache_size_pushes: "cache_size (pushes ps p) = cache_size p"
  by (induction ps p rule: pushes.induct) (simp_all add: push_def stack_push_def)

lemma foldr_set_mark:
  "foldr set_mark (map (\<lambda>(obj, m). \<lparr>target = obj, saved_mark = m\<rparr>) ps) h obj =
     (case map_of ps obj of None \<Rightarrow> h obj | Some m \<Rightarrow> m)"
  by (induction ps) (auto simp: set_mark_def)

text \<open>
  C1, as amended. Take a new stack, push any pairs \<open>(object_i, mark_i)\<close> in which
  no object comes with two different marks (so, in particular, pairs whose
  objects are pairwise distinct), and restore on any heap: the restore returns,
  the header of every \<open>object_i\<close> is \<open>mark_i\<close>, the stack is empty and has no
  cached segment.
\<close>

theorem restore_round_trip:
  assumes "\<forall>(obj, m) \<in> set ps. \<forall>(obj', m') \<in> set ps. obj = obj' \<longrightarrow> m = m'"
  shows "\<exists>p' h'. PreservedMarks_restore (pushes ps PreservedMarks_new) h = Inr (p', h')
           \<and> (\<forall>(obj, m) \<in> set ps. h' obj = m)
           \<and> stack_is_empty p' \<and> cache_size p' = 0"
proof -
  let ?p = "pushes ps PreservedMarks_new"
  let ?mk = "\<lambda>(obj, m). \<lparr>target = obj, saved_mark = m\<rparr>"
  have c: "cache_size ?p = 0"
    by (simp add: cache_size_pushes PreservedMarks_new_def stack_new_def)
  have e: "entries ?p = rev (map ?mk ps)"
    by (simp add: entries_pushes PreservedMarks_new_def stack_new_def)
  have r: "PreservedMarks_restore ?p h =
             Inr (?p\<lparr>entries := []\<rparr>, foldr set_mark (map ?mk ps) h)"
    by (simp add: PreservedMarks_restore_eq [OF c] e fold_rev foldr_conv_fold)
  have "foldr set_mark (map ?mk ps) h obj = m" if in_ps: "(obj, m) \<in> set ps" for obj m
  proof -
    from in_ps have "obj \<in> fst ` set ps" by force
    then obtain m' where m': "map_of ps obj = Some m'"
      by (metis domD dom_map_of_conv_image_fst)
    then have "(obj, m') \<in> set ps" by (rule map_of_SomeD)
    with assms in_ps have "m' = m" by blast
    with m' show ?thesis by (simp add: foldr_set_mark)
  qed
  with r c show ?thesis
    by (auto simp: stack_is_empty_def)
qed

theorem restore_round_trip_witness:
  "\<exists>p' h'. PreservedMarks_restore (pushes [(1, 5), (2, 7), (1, 5)] PreservedMarks_new) (\<lambda>_. 0)
              = Inr (p', h')
         \<and> h' 1 = 5 \<and> h' 2 = 7 \<and> stack_is_empty p' \<and> cache_size p' = 0"
  using restore_round_trip [of "[(1, 5), (2, 7), (1, 5)]" "\<lambda>_. 0"] by auto

text \<open>
  C1 as stated fails when an object is pushed twice: after the pushes \<open>(1, 5)\<close>
  and \<open>(1, 7)\<close> the restore pops \<open>(1, 7)\<close> first and \<open>(1, 5)\<close> last, and the
  header of object 1 is 5, not the 7 of the second push.
\<close>

theorem restore_round_trip_counterexample:
  "PreservedMarks_restore (pushes [(1, 5), (1, 7)] PreservedMarks_new) (\<lambda>_. 0)
     = Inr (PreservedMarks_new, (\<lambda>_. 0)(1 := 5))
   \<and> ((\<lambda>_. 0)(1 := 5 :: markWord)) (1 :: oop) \<noteq> 7"
  by (simp add: PreservedMarks_restore_eq push_def stack_push_def
        PreservedMarks_new_def stack_new_def set_mark_def)

section \<open>The adjustment pass\<close>

lemma adjust_loop_eq:
  "adjust_loop enc h p i =
     p\<lparr>entries := take i (entries p) @
        map (\<lambda>elem. if is_forwarded enc h (target elem)
                     then elem\<lparr>target := forwardee enc h (target elem)\<rparr> else elem)
            (drop i (entries p))\<rparr>"
proof (induction enc h p i rule: adjust_loop.induct)
  case (1 enc h p i)
  show ?case
  proof (cases "i < length (entries p)")
    case False
    then show ?thesis by (subst adjust_loop.simps) simp
  next
    case True
    note lt = this
    have d: "drop i (entries p) = entries p ! i # drop (Suc i) (entries p)"
      using lt by (simp add: Cons_nth_drop_Suc)
    show ?thesis
    proof (cases "is_forwarded enc h (get_oop (entries p ! i))")
      case True
      from "1.IH"(1) [OF lt refl refl True] lt True show ?thesis
        by (subst adjust_loop.simps)
           (simp add: d Let_def get_oop_def set_oop_def take_Suc_conv_app_nth upd_conv_take_nth_drop)
    next
      case False
      from "1.IH"(2) [OF lt refl refl False] lt False show ?thesis
        by (subst adjust_loop.simps)
           (simp add: d Let_def get_oop_def set_oop_def take_Suc_conv_app_nth)
    qed
  qed
qed

lemma adjust_eq:
  "PreservedMarks_adjust_during_full_gc enc h p =
     p\<lparr>entries :=
        map (\<lambda>elem. if is_forwarded enc h (target elem)
                     then elem\<lparr>target := forwardee enc h (target elem)\<rparr> else elem)
            (entries p)\<rparr>"
  by (simp add: PreservedMarks_adjust_during_full_gc_def adjust_loop_eq)






text \<open>
  C9. One pass follows one forwarding step: an entry whose target \<open>A\<close> is
  forwarded to \<open>B\<close> points to \<open>B\<close> afterwards, whatever the header of \<open>B\<close> says.
  When \<open>B\<close> is itself forwarded, the entry still points to a forwarded object,
  and when the forwardee of \<open>B\<close> is another object the entry does not point to
  it: the chain is not collapsed.
\<close>

theorem adjust_single_hop:
  assumes "i < length (entries p)"
    and "is_forwarded enc h (target (entries p ! i))"
  shows "(let q = PreservedMarks_adjust_during_full_gc enc h p;
              B = forwardee enc h (target (entries p ! i))
          in target (entries q ! i) = B
           \<and> (is_forwarded enc h B \<longrightarrow> is_forwarded enc h (target (entries q ! i)))
           \<and> (is_forwarded enc h B \<and> forwardee enc h B \<noteq> B \<longrightarrow>
                 target (entries q ! i) \<noteq> forwardee enc h B))"
  using assms by (auto simp: Let_def adjust_eq)

theorem adjust_single_hop_witness:
  "(let p = push 8 5 PreservedMarks_new;
        h = (\<lambda>_. 1)(8 := 19, 16 := 27);
        q = PreservedMarks_adjust_during_full_gc lock_bits_encoding h p
    in (0 :: nat) < length (entries p)
     \<and> target (entries p ! 0) = 8
     \<and> is_forwarded lock_bits_encoding h 8 \<and> forwardee lock_bits_encoding h 8 = 16
     \<and> is_forwarded lock_bits_encoding h 16 \<and> forwardee lock_bits_encoding h 16 = 24
     \<and> target (entries q ! 0) = 16
     \<and> is_forwarded lock_bits_encoding h (target (entries q ! 0))
     \<and> target (entries q ! 0) \<noteq> 24)"
  using adjust_single_hop
          [of 0 "push 8 5 PreservedMarks_new" lock_bits_encoding "(\<lambda>_. 1)(8 := 19, 16 := 27)"]
  by (simp add: Let_def push_def stack_push_def PreservedMarks_new_def stack_new_def
        lock_bits_encoding_def is_forwarded_def forwardee_def)

section \<open>Restore with a tally, and the forwarding-removal helper\<close>

text \<open>
  C6. On a stack without cached segments \<^verbatim>\<open>restore_and_increment\<close> returns; the
  stack and the heap are those of a full \<^verbatim>\<open>restore\<close>; when the size read before
  the restore is greater than zero the counter is the result of the atomic add
  of that size, whatever the add does, and otherwise the counter is returned as
  it was given: on an empty stack no add is applied to it.
\<close>

theorem restore_and_increment_correct:
  assumes "cache_size p = 0"
  shows "\<exists>p' h' c'.
           PreservedMarks_restore_and_increment atomic_add p h c = Inr (p', h', c')
         \<and> PreservedMarks_restore p h = Inr (p', h')
         \<and> stack_is_empty p'
         \<and> (0 < size_marks p \<longrightarrow> c' = atomic_add c (size_marks p))
         \<and> (\<not> 0 < size_marks p \<longrightarrow> c' = c)
         \<and> (stack_is_empty p \<longrightarrow> c' = c)"
  using assms
  by (auto simp: PreservedMarks_restore_and_increment_def PreservedMarks_restore_eq
        Let_def stack_is_empty_def size_marks_def stack_size_def)

theorem restore_and_increment_correct_witness:
  "cache_size (pushes [(1, 5), (2, 7)] PreservedMarks_new) = 0
   \<and> size_marks (pushes [(1, 5), (2, 7)] PreservedMarks_new) = 2
   \<and> (\<exists>p' h'. PreservedMarks_restore_and_increment Atomic_add
                   (pushes [(1, 5), (2, 7)] PreservedMarks_new) (\<lambda>_. 0) 10 = Inr (p', h', 12)
          \<and> stack_is_empty p')
   \<and> cache_size PreservedMarks_new = 0
   \<and> stack_is_empty PreservedMarks_new
   \<and> (\<exists>p' h'. PreservedMarks_restore_and_increment (\<lambda>dest add_value. dest + add_value + 1)
                   PreservedMarks_new (\<lambda>_. 0) 10 = Inr (p', h', 10))"
  using restore_and_increment_correct
          [of "pushes [(1, 5), (2, 7)] PreservedMarks_new" Atomic_add "\<lambda>_. 0" 10]
        restore_and_increment_correct
          [of PreservedMarks_new "\<lambda>dest add_value. dest + add_value + 1" "\<lambda>_. 0" 10]
  by (auto simp: push_def stack_push_def PreservedMarks_new_def stack_new_def
        size_marks_def stack_size_def stack_is_empty_def Atomic_add_def)

text \<open>
  C7. For a forwarded object \<^verbatim>\<open>do_object\<close> is \<^verbatim>\<open>init_forwarded_mark\<close> on that
  object, whatever that helper does; for an object that is not forwarded the
  whole state is returned as it was.
\<close>

theorem do_object_dispatch:
  "(is_forwarded enc (heap_of w) obj \<longrightarrow>
      RemoveForwardedPointerClosure_do_object enc heap_of init_forwarded_mark obj w
        = init_forwarded_mark obj w)
   \<and> (\<not> is_forwarded enc (heap_of w) obj \<longrightarrow>
      RemoveForwardedPointerClosure_do_object enc heap_of init_forwarded_mark obj w = w)"
  by (simp add: RemoveForwardedPointerClosure_do_object_def)

theorem do_object_dispatch_witness:
  "is_forwarded lock_bits_encoding (fst ((\<lambda>_. 1)(8 := 19), PreservedMarks_new)) 8
   \<and> RemoveForwardedPointerClosure_do_object lock_bits_encoding fst
        (\<lambda>obj (h, p). (h(obj := 1), push obj (h obj) p)) 8 ((\<lambda>_. 1)(8 := 19), PreservedMarks_new)
        = (((\<lambda>_. 1)(8 := 19))(8 := 1), push 8 19 PreservedMarks_new)
   \<and> \<not> is_forwarded lock_bits_encoding (fst ((\<lambda>_. 1)(8 := 19), PreservedMarks_new)) 16
   \<and> RemoveForwardedPointerClosure_do_object lock_bits_encoding fst
        (\<lambda>obj (h, p). (h(obj := 1), push obj (h obj) p)) 16 ((\<lambda>_. 1)(8 := 19), PreservedMarks_new)
        = ((\<lambda>_. 1)(8 := 19), PreservedMarks_new)"
  using do_object_dispatch
          [of lock_bits_encoding fst "((\<lambda>_. 1)(8 := 19), PreservedMarks_new)" 8
              "\<lambda>obj (h, p). (h(obj := 1), push obj (h obj) p)"]
        do_object_dispatch
          [of lock_bits_encoding fst "((\<lambda>_. 1)(8 := 19), PreservedMarks_new)" 16
              "\<lambda>obj (h, p). (h(obj := 1), push obj (h obj) p)"]
  by (simp add: lock_bits_encoding_def is_forwarded_def)

section \<open>Assertions and the life cycle of the set\<close>

lemma get_eq_Inr:
  "get s j = Inr p \<longleftrightarrow>
     (\<exists>arr. stacks s = Some arr \<and> j < num s \<and> j < length (slots arr) \<and> p = slots arr ! j)"
  by (auto simp: get_def split: option.splits)

lemma assert_empty_loop_Inr:
  "assert_empty_loop s i = Inr u \<longleftrightarrow>
     (\<forall>j. i \<le> j \<and> j < num s \<longrightarrow>
          (\<exists>p. get s j = Inr p \<and> stack_is_empty p \<and> cache_size p = 0))"
proof (induction s i rule: assert_empty_loop.induct)
  case (1 s i)
  show ?case
  proof (cases "i < num s")
    case False
    then show ?thesis by (subst assert_empty_loop.simps) auto
  next
    case True
    note lt = this
    show ?thesis
    proof (cases "get s i")
      case (Inl e)
      with lt show ?thesis
        by (subst assert_empty_loop.simps) (auto intro: exI [of _ i])
    next
      case (Inr p)
      note g = this
      show ?thesis
      proof (cases "PreservedMarks_assert_empty p")
        case (Inl e)
        then have "\<not> (stack_is_empty p \<and> cache_size p = 0)"
          by (auto simp: PreservedMarks_assert_empty_def split: if_splits)
        with lt g Inl show ?thesis
          by (subst assert_empty_loop.simps) (auto intro: exI [of _ i])
      next
        case (Inr v)
        then have e: "stack_is_empty p \<and> cache_size p = 0"
          by (auto simp: PreservedMarks_assert_empty_def split: if_splits)
        have "(\<forall>j. i \<le> j \<and> j < num s \<longrightarrow> (\<exists>p. get s j = Inr p \<and> stack_is_empty p \<and> cache_size p = 0))
              \<longleftrightarrow> (\<forall>j. i + 1 \<le> j \<and> j < num s \<longrightarrow> (\<exists>p. get s j = Inr p \<and> stack_is_empty p \<and> cache_size p = 0))"
          (is "?L \<longleftrightarrow> ?R")
        proof
          assume ?L then show ?R by simp
        next
          assume r: ?R
          show ?L
          proof (intro allI impI)
            fix j assume j: "i \<le> j \<and> j < num s"
            show "\<exists>p. get s j = Inr p \<and> stack_is_empty p \<and> cache_size p = 0"
            proof (cases "j = i")
              case True
              with g e show ?thesis by simp
            next
              case False
              with j r show ?thesis by simp
            qed
          qed
        qed
        with "1.IH" [OF lt g Inr] lt g Inr show ?thesis
          by (subst assert_empty_loop.simps) simp
      qed
    qed
  qed
qed

lemma PreservedMarksSet_assert_empty_Inr:
  "PreservedMarksSet_assert_empty s = Inr u \<longleftrightarrow>
     (\<exists>arr. stacks s = Some arr \<and> 0 < num s \<and> num s \<le> length (slots arr)
        \<and> (\<forall>j < num s. stack_is_empty (slots arr ! j) \<and> cache_size (slots arr ! j) = 0))"
proof (cases "stacks s")
  case None
  then show ?thesis by (simp add: PreservedMarksSet_assert_empty_def)
next
  case (Some arr)
  show ?thesis
  proof (cases "0 < num s")
    case False
    with Some show ?thesis by (simp add: PreservedMarksSet_assert_empty_def)
  next
    case True
    have "(\<forall>j. 0 \<le> j \<and> j < num s \<longrightarrow> (\<exists>p. get s j = Inr p \<and> stack_is_empty p \<and> cache_size p = 0))
          \<longleftrightarrow> (num s \<le> length (slots arr)
                \<and> (\<forall>j < num s. stack_is_empty (slots arr ! j) \<and> cache_size (slots arr ! j) = 0))"
      (is "?L \<longleftrightarrow> ?R")
    proof
      assume l: ?L
      have "j < length (slots arr)" if "j < num s" for j
        using l that Some by (auto simp: get_eq_Inr)
      then have "num s \<le> length (slots arr)"
        by (meson not_le_imp_less order_refl leD)
      with l Some show ?R by (auto simp: get_eq_Inr)
    next
      assume ?R
      with Some show ?L by (auto simp: get_eq_Inr)
    qed
    with Some True show ?thesis
      by (simp add: PreservedMarksSet_assert_empty_def assert_empty_loop_Inr)
  qed
qed

lemma construct_slots_eq: "construct_slots i n = replicate (n - i) PreservedMarks_new"
proof (induction i n rule: construct_slots.induct)
  case (1 i n)
  show ?case
  proof (cases "i < n")
    case True
    then have "n - i = Suc (n - (i + 1))" by simp
    with "1.IH" [OF True] True show ?thesis
      by (subst construct_slots.simps) simp
  next
    case False
    then show ?thesis by (subst construct_slots.simps) simp
  qed
qed

lemma PreservedMarksSet_init_eq:
  "PreservedMarksSet_init n s =
     (if \<not> (stacks s = None \<and> num s = 0) then Inl DoNotReinitialize
      else if n = 0 then Inl PreCondition
      else Inr (s\<lparr>stacks := Some \<lparr>arena = (if in_c_heap s then CHeap else ResourceArea),
                                  slots = replicate n PreservedMarks_new\<rparr>,
                 num := n\<rparr>))"
proof -
  let ?s' = "s\<lparr>stacks := Some \<lparr>arena = (if in_c_heap s then CHeap else ResourceArea),
                                  slots = replicate n PreservedMarks_new\<rparr>,
                 num := n\<rparr>"
  have "PreservedMarksSet_assert_empty ?s' = Inr ()" if "0 < n"
    using that
    by (simp add: PreservedMarksSet_assert_empty_Inr PreservedMarks_new_def stack_new_def
          stack_is_empty_def)
  then show ?thesis
    by (simp add: PreservedMarksSet_init_def Let_def construct_slots_eq)
qed

section \<open>The sequential path\<close>

lemma put_with_slots: "put s i p = with_slots s ((set_slots s)[i := p])"
  by (simp add: put_def with_slots_def set_slots_def split: option.splits)

lemma set_slots_with_slots: "stacks s \<noteq> None \<Longrightarrow> set_slots (with_slots s xs) = xs"
  by (auto simp: with_slots_def set_slots_def)

lemma with_slots_with_slots: "with_slots (with_slots s xs) ys = with_slots s ys"
  by (auto simp: with_slots_def split: option.splits)

lemma with_slots_set_slots: "with_slots s (set_slots s) = s"
  by (auto simp: with_slots_def set_slots_def split: option.splits)

lemma num_with_slots: "num (with_slots s xs) = num s"
  by (auto simp: with_slots_def split: option.splits)

lemma in_c_heap_with_slots: "in_c_heap (with_slots s xs) = in_c_heap s"
  by (auto simp: with_slots_def split: option.splits)

lemma stacks_with_slots_None: "(stacks (with_slots s xs) = None) = (stacks s = None)"
  by (auto simp: with_slots_def split: option.splits)

lemma get_with_slots:
  "stacks s \<noteq> None \<Longrightarrow> i < num s \<Longrightarrow> i < length xs \<Longrightarrow> get (with_slots s xs) i = Inr (xs ! i)"
  by (auto simp: get_def with_slots_def split: option.splits)

lemma restore_emptied:
  "cache_size p = 0 \<Longrightarrow>
   PreservedMarks_restore p h = Inr (emptied p, fold set_mark (entries p) h)"
  by (simp add: PreservedMarks_restore_eq emptied_def)

lemma sequential_loop_eq:
  assumes "stacks s \<noteq> None"
    and "num s = length pre + length post"
    and "\<forall>p \<in> set post. cache_size p = 0"
  shows "sequential_loop (with_slots s (pre @ post)) h (length pre) t =
           Inr (with_slots s (pre @ map emptied post),
                fold (\<lambda>p. fold set_mark (entries p)) post h,
                t + sum_list (map size_marks post))"
  using assms
proof (induction post arbitrary: pre h t)
  case Nil
  then show ?case
    by (subst sequential_loop.simps) (simp add: num_with_slots)
next
  case (Cons p post)
  let ?s = "with_slots s (pre @ p # post)"
  have lt: "length pre < num ?s"
    using Cons.prems(2) by (simp add: num_with_slots)
  have g: "get ?s (length pre) = Inr p"
    using Cons.prems by (simp add: get_with_slots)
  have r: "PreservedMarks_restore p h = Inr (emptied p, fold set_mark (entries p) h)"
    using Cons.prems(3) by (simp add: restore_emptied)
  have pt: "put ?s (length pre) (emptied p) = with_slots s ((pre @ [emptied p]) @ post)"
    using Cons.prems(1)
    by (simp add: put_with_slots set_slots_with_slots with_slots_with_slots)
  have ih: "sequential_loop (with_slots s ((pre @ [emptied p]) @ post))
              (fold set_mark (entries p) h) (length (pre @ [emptied p])) (t + size_marks p) =
            Inr (with_slots s ((pre @ [emptied p]) @ map emptied post),
                 fold (\<lambda>p. fold set_mark (entries p)) post (fold set_mark (entries p) h),
                 t + size_marks p + sum_list (map size_marks post))"
    using Cons.prems by (intro Cons.IH) simp_all
  show ?case
    apply (subst sequential_loop.simps)
    using lt g r pt ih by (simp add: add.assoc)
qed

lemma size_before_loop_eq:
  assumes "stacks s \<noteq> None"
    and "num s = length pre + length post"
  shows "size_before_loop (with_slots s (pre @ post)) (length pre) t =
           Inr (t + sum_list (map size_marks post))"
  using assms
proof (induction post arbitrary: pre t)
  case Nil
  then show ?case
    by (subst size_before_loop.simps) (simp add: num_with_slots)
next
  case (Cons p post)
  let ?s = "with_slots s (pre @ p # post)"
  have lt: "length pre < num ?s"
    using Cons.prems(2) by (simp add: num_with_slots)
  have g: "get ?s (length pre) = Inr p"
    using Cons.prems by (simp add: get_with_slots)
  have ih: "size_before_loop (with_slots s ((pre @ [p]) @ post)) (length (pre @ [p]))
              (t + size_marks p) = Inr (t + size_marks p + sum_list (map size_marks post))"
    using Cons.prems by (intro Cons.IH) simp_all
  show ?case
    apply (subst size_before_loop.simps)
    using lt g ih by (simp add: add.assoc)
qed

section \<open>The parallel path\<close>

lemma restore_and_increment_eq:
  "cache_size p = 0 \<Longrightarrow>
   PreservedMarks_restore_and_increment Atomic_add p h t =
     Inr (emptied p, fold set_mark (entries p) h, t + size_marks p)"
  by (auto simp: PreservedMarks_restore_and_increment_def restore_emptied Let_def
        Atomic_add_def word_neq_0_conv [symmetric])

lemma work_turn_claims:
  assumes inv: "par_inv s orig h0 st"
    and s: "stacks s \<noteq> None" "num s = length orig"
    and c: "\<forall>p \<in> set orig. cache_size p = 0"
    and lt: "n_claimed (sub_tasks st) < length orig"
  shows "\<exists>st'. work_turn Atomic_add st = Inr (True, st') \<and> par_inv s orig h0 st'
           \<and> returned st' = returned st
           \<and> n_claimed (sub_tasks st') = n_claimed (sub_tasks st) + 1"
proof -
  let ?k = "n_claimed (sub_tasks st)"
  let ?xs = "map emptied (take ?k orig) @ drop ?k orig"
  let ?p = "orig ! ?k"
  from inv have nt: "n_tasks (sub_tasks st) = length orig"
    and ms: "marks_set st = with_slots s ?xs"
    and tot: "total_now st = sum_list (map size_marks (take ?k orig))"
    and ret: "True \<in> set (returned st) \<longrightarrow> ?k = length orig"
    and hp: "heap_now st = fold (\<lambda>p. fold set_mark (entries p)) (take ?k orig) h0"
    by (simp_all add: par_inv_def)
  have claim: "try_claim_task (sub_tasks st) = (Some ?k, (sub_tasks st)\<lparr>n_claimed := ?k + 1\<rparr>)"
    using lt nt by (simp add: try_claim_task_def)
  have nth: "?xs ! ?k = ?p"
    using lt by (simp add: nth_append)
  have g: "get (marks_set st) ?k = Inr ?p"
    using s lt nth by (simp add: ms get_with_slots)
  have cp: "cache_size ?p = 0"
    using c lt by simp
  have upd: "?xs[?k := emptied ?p] = map emptied (take (?k + 1) orig) @ drop (?k + 1) orig"
    using lt
    by (simp add: list_update_append take_Suc_conv_app_nth Cons_nth_drop_Suc [symmetric])
  have pt: "put (marks_set st) ?k (emptied ?p) =
              with_slots s (map emptied (take (?k + 1) orig) @ drop (?k + 1) orig)"
    using s(1) upd
    by (simp add: ms put_with_slots set_slots_with_slots with_slots_with_slots)
  let ?st' = "st\<lparr>sub_tasks := (sub_tasks st)\<lparr>n_claimed := ?k + 1\<rparr>,
                 marks_set := put (marks_set st) ?k (emptied ?p),
                 heap_now := fold set_mark (entries ?p) (heap_now st),
                 total_now := total_now st + size_marks ?p\<rparr>"
  have w: "work_turn Atomic_add st = Inr (True, ?st')"
    by (simp add: work_turn_def claim g restore_and_increment_eq [OF cp])
  have "par_inv s orig h0 ?st'"
    using lt nt ret tot hp by (simp add: par_inv_def pt take_Suc_conv_app_nth)
  with w show ?thesis by simp
qed

lemma work_turn_exhausted:
  assumes inv: "par_inv s orig h0 st"
    and ge: "\<not> n_claimed (sub_tasks st) < length orig"
  shows "\<exists>st'. work_turn Atomic_add st = Inr (False, st') \<and> par_inv s orig h0 st'
           \<and> returned st' = returned st
           \<and> n_claimed (sub_tasks st') = length orig"
proof -
  from inv have nt: "n_tasks (sub_tasks st) = length orig"
    and le: "n_claimed (sub_tasks st) \<le> length orig"
    by (simp_all add: par_inv_def)
  have claim: "try_claim_task (sub_tasks st) = (None, sub_tasks st)"
    using ge nt by (simp add: try_claim_task_def)
  let ?st' = "st\<lparr>sub_tasks := all_tasks_completed (sub_tasks st)\<rparr>"
  have w: "work_turn Atomic_add st = Inr (False, ?st')"
    by (simp add: work_turn_def claim)
  have "par_inv s orig h0 ?st'"
    using inv by (simp add: par_inv_def all_tasks_completed_def)
  moreover have "n_claimed (sub_tasks ?st') = length orig"
    using ge le by (simp add: all_tasks_completed_def)
  ultimately show ?thesis using w by simp
qed

lemma work_inv:
  assumes "par_inv s orig h0 st"
    and "stacks s \<noteq> None" "num s = length orig"
    and "\<forall>p \<in> set orig. cache_size p = 0"
  shows "\<exists>st'. ParRestoreTask_work Atomic_add w st = Inr st' \<and> par_inv s orig h0 st'
           \<and> returned st' = returned st
           \<and> n_claimed (sub_tasks st') = length orig"
  using assms
proof (induction "length orig - n_claimed (sub_tasks st)" arbitrary: st)
  case 0
  then have "\<not> n_claimed (sub_tasks st) < length orig" by simp
  from work_turn_exhausted [OF "0.prems"(1) this]
  show ?case by (subst ParRestoreTask_work.simps) auto
next
  case (Suc d)
  then have lt: "n_claimed (sub_tasks st) < length orig" by simp
  from work_turn_claims [OF Suc.prems(1) Suc.prems(2) Suc.prems(3) Suc.prems(4) lt]
  obtain st1 where w: "work_turn Atomic_add st = Inr (True, st1)"
    and i1: "par_inv s orig h0 st1" and r1: "returned st1 = returned st"
    and k1: "n_claimed (sub_tasks st1) = n_claimed (sub_tasks st) + 1"
    by blast
  have "d = length orig - n_claimed (sub_tasks st1)"
    using Suc.hyps(2) k1 by simp
  from Suc.hyps(1) [OF this i1 Suc.prems(2) Suc.prems(3) Suc.prems(4)] w r1
  show ?case by (subst ParRestoreTask_work.simps) auto
qed

lemma par_inv_returned:
  "par_inv s orig h0 st \<Longrightarrow> n_claimed (sub_tasks st) = length orig \<Longrightarrow>
   par_inv s orig h0 (st\<lparr>returned := r\<rparr>)"
  by (simp add: par_inv_def)

lemma run_schedule_inv:
  assumes "par_inv s orig h0 st"
    and "stacks s \<noteq> None" "num s = length orig"
    and "\<forall>p \<in> set orig. cache_size p = 0"
  shows "\<exists>st'. run_schedule Atomic_add ws st = Inr st' \<and> par_inv s orig h0 st'
           \<and> length (returned st') = length (returned st)"
  using assms(1)
proof (induction ws arbitrary: st)
  case Nil
  then show ?case by simp
next
  case (Cons w ws)
  show ?case
  proof (cases "w < length (returned st) \<and> \<not> returned st ! w")
    case False
    with Cons.IH [OF Cons.prems] show ?thesis by auto
  next
    case True
    show ?thesis
    proof (cases "n_claimed (sub_tasks st) < length orig")
      case lt: True
      from work_turn_claims [OF Cons.prems assms(2) assms(3) assms(4) lt]
      obtain st1 where w: "work_turn Atomic_add st = Inr (True, st1)"
        and i1: "par_inv s orig h0 st1" and r1: "returned st1 = returned st"
        by blast
      from Cons.IH [OF i1] True w r1 show ?thesis by auto
    next
      case ge: False
      from work_turn_exhausted [OF Cons.prems ge]
      obtain st1 where w: "work_turn Atomic_add st = Inr (False, st1)"
        and i1: "par_inv s orig h0 st1" and r1: "returned st1 = returned st"
        and k1: "n_claimed (sub_tasks st1) = length orig"
        by blast
      from Cons.IH [OF par_inv_returned [OF i1 k1, of "(returned st1)[w := True]"]]
        True w r1 show ?thesis by auto
    qed
  qed
qed

lemma finish_workers_inv:
  assumes "par_inv s orig h0 st"
    and "stacks s \<noteq> None" "num s = length orig"
    and "\<forall>p \<in> set orig. cache_size p = 0"
  shows "\<exists>st'. finish_workers Atomic_add ws st = Inr st' \<and> par_inv s orig h0 st'
           \<and> length (returned st') = length (returned st)
           \<and> (True \<in> set (returned st) \<or> (\<exists>w \<in> set ws. w < length (returned st))
                \<longrightarrow> True \<in> set (returned st'))"
  using assms(1)
proof (induction ws arbitrary: st)
  case Nil
  then show ?case by simp
next
  case (Cons w ws)
  show ?case
  proof (cases "w < length (returned st) \<and> \<not> returned st ! w")
    case False
    from Cons.IH [OF Cons.prems]
    obtain st' where f: "finish_workers Atomic_add ws st = Inr st'"
      and i: "par_inv s orig h0 st'" and l: "length (returned st') = length (returned st)"
      and t: "True \<in> set (returned st) \<or> (\<exists>w \<in> set ws. w < length (returned st))
                \<longrightarrow> True \<in> set (returned st')"
      by blast
    have "True \<in> set (returned st)" if "w < length (returned st)"
      using that False by (metis nth_mem)
    with f i l t False show ?thesis by auto
  next
    case True
    from work_inv [OF Cons.prems assms(2) assms(3) assms(4), of w]
    obtain st1 where w: "ParRestoreTask_work Atomic_add w st = Inr st1"
      and i1: "par_inv s orig h0 st1" and r1: "returned st1 = returned st"
      and k1: "n_claimed (sub_tasks st1) = length orig"
      by blast
    let ?st2 = "st1\<lparr>returned := (returned st1)[w := True]\<rparr>"
    from Cons.IH [OF par_inv_returned [OF i1 k1, of "(returned st1)[w := True]"]]
    obtain st' where f: "finish_workers Atomic_add ws ?st2 = Inr st'"
      and i: "par_inv s orig h0 st'" and l: "length (returned st') = length (returned ?st2)"
      and t: "True \<in> set (returned ?st2) \<or> (\<exists>w \<in> set ws. w < length (returned ?st2))
                \<longrightarrow> True \<in> set (returned st')"
      by blast
    have "True \<in> set (returned ?st2)"
      using True r1 by (simp add: set_update_memI)
    with f i l t True w r1 show ?thesis by auto
  qed
qed

lemma run_task_inv:
  assumes "stacks s \<noteq> None" "num s = length orig" "set_slots s = orig"
    and "\<forall>p \<in> set orig. cache_size p = 0"
  shows "\<exists>st'. run_task Atomic_add gang (ParRestoreTask_new (active_workers gang) s h 0) = Inr st'
           \<and> par_inv s orig h st'
           \<and> (0 < active_workers gang \<longrightarrow> n_claimed (sub_tasks st') = length orig)"
proof -
  let ?st0 = "ParRestoreTask_new (active_workers gang) s h 0"
  have "with_slots s orig = s"
    using with_slots_set_slots [of s] assms(3) by simp
  then have i0: "par_inv s orig h ?st0"
    using assms(2)
    by (simp add: par_inv_def ParRestoreTask_new_def sub_tasks_new_def)
  from run_schedule_inv [OF i0 assms(1) assms(2) assms(4), of "schedule gang"]
  obtain st1 where r: "run_schedule Atomic_add (schedule gang) ?st0 = Inr st1"
    and i1: "par_inv s orig h st1" and l1: "length (returned st1) = length (returned ?st0)"
    by blast
  from finish_workers_inv [OF i1 assms(1) assms(2) assms(4), of "[0..<active_workers gang]"]
  obtain st2 where f: "finish_workers Atomic_add [0..<active_workers gang] st1 = Inr st2"
    and i2: "par_inv s orig h st2"
    and t: "True \<in> set (returned st1) \<or> (\<exists>w \<in> set [0..<active_workers gang]. w < length (returned st1))
                \<longrightarrow> True \<in> set (returned st2)"
    by blast
  have len: "length (returned st1) = active_workers gang"
    using l1 by (simp add: ParRestoreTask_new_def)
  have "n_claimed (sub_tasks st2) = length orig" if "0 < active_workers gang"
  proof -
    have "\<exists>w \<in> set [0..<active_workers gang]. w < length (returned st1)"
      using that len by (intro bexI [of _ 0]) simp_all
    with t have "True \<in> set (returned st2)" by blast
    with i2 show ?thesis by (simp add: par_inv_def)
  qed
  with r f i2 show ?thesis by (simp add: run_task_def)
qed

section \<open>What a restore leaves alone\<close>

lemma set_frame_put: "set_frame (put s i p) = set_frame s"
  by (simp add: set_frame_def put_def split: option.splits)

lemma sequential_loop_frame:
  "sequential_loop s h i t = Inr (s', h', t') \<Longrightarrow> set_frame s' = set_frame s"
proof (induction s h i t rule: sequential_loop.induct)
  case (1 s h i t)
  show ?case
  proof (cases "i < num s")
    case False
    with "1.prems" show ?thesis by (subst (asm) sequential_loop.simps) simp
  next
    case True
    from "1.prems" True obtain p p1 h1 where g: "get s i = Inr p"
      and r: "PreservedMarks_restore p h = Inr (p1, h1)"
      and l: "sequential_loop (put s i p1) h1 (i + 1) (t + size_marks p) = Inr (s', h', t')"
      by (subst (asm) sequential_loop.simps) (auto split: sum.splits)
    have "(p1, h1) = (p1, h1)" by simp
    from "1.IH" [OF True g r this l] show ?thesis by (simp add: set_frame_put)
  qed
qed

lemma work_turn_frame:
  "work_turn atomic_add st = Inr (b, st') \<Longrightarrow>
   set_frame (marks_set st') = set_frame (marks_set st)"
  by (auto simp: work_turn_def set_frame_put split: prod.splits option.splits sum.splits)

lemma work_frame:
  "ParRestoreTask_work atomic_add w st = Inr st' \<Longrightarrow>
   set_frame (marks_set st') = set_frame (marks_set st)"
proof (induction atomic_add w st rule: ParRestoreTask_work.induct)
  case (1 atomic_add w st)
  from "1.prems" obtain b st1 where t: "work_turn atomic_add st = Inr (b, st1)"
    and r: "(if b then ParRestoreTask_work atomic_add w st1 else Inr st1) = Inr st'"
    by (subst (asm) ParRestoreTask_work.simps) (auto split: sum.splits)
  show ?case
  proof (cases b)
    case True
    have "(b, st1) = (b, st1)" by simp
    from "1.IH" [OF t this True] r True work_turn_frame [OF t] show ?thesis by simp
  next
    case False
    with r work_turn_frame [OF t] show ?thesis by simp
  qed
qed

lemma run_schedule_frame:
  "run_schedule atomic_add ws st = Inr st' \<Longrightarrow>
   set_frame (marks_set st') = set_frame (marks_set st)"
proof (induction ws arbitrary: st)
  case Nil
  then show ?case by simp
next
  case (Cons w ws)
  show ?case
  proof (cases "w < length (returned st) \<and> \<not> returned st ! w")
    case False
    with Cons show ?thesis by auto
  next
    case True
    with Cons.prems obtain b st1 where t: "work_turn atomic_add st = Inr (b, st1)"
      and r: "run_schedule atomic_add ws
                (if b then st1 else st1\<lparr>returned := (returned st1)[w := True]\<rparr>) = Inr st'"
      by (auto split: sum.splits)
    from Cons.IH [OF r] work_turn_frame [OF t] show ?thesis by (simp split: if_splits)
  qed
qed

lemma finish_workers_frame:
  "finish_workers atomic_add ws st = Inr st' \<Longrightarrow>
   set_frame (marks_set st') = set_frame (marks_set st)"
proof (induction ws arbitrary: st)
  case Nil
  then show ?case by simp
next
  case (Cons w ws)
  show ?case
  proof (cases "w < length (returned st) \<and> \<not> returned st ! w")
    case False
    with Cons show ?thesis by auto
  next
    case True
    with Cons.prems obtain st1 where t: "ParRestoreTask_work atomic_add w st = Inr st1"
      and r: "finish_workers atomic_add ws (st1\<lparr>returned := (returned st1)[w := True]\<rparr>) = Inr st'"
      by (auto split: sum.splits)
    from Cons.IH [OF r] work_frame [OF t] show ?thesis by simp
  qed
qed

lemma PreservedMarksSet_restore_frame:
  assumes "PreservedMarksSet_restore atomic_add workers s h = Inr (t, s', h')"
  shows "set_frame s' = set_frame s"
proof (cases workers)
  case None
  with assms obtain t' where "sequential_loop s h 0 0 = Inr (s', h', t')"
    by (auto simp: PreservedMarksSet_restore_def split: sum.splits if_splits)
  then show ?thesis by (rule sequential_loop_frame)
next
  case (Some gang)
  with assms obtain st where r: "run_task atomic_add gang
      (ParRestoreTask_new (active_workers gang) s h 0) = Inr st" and m: "marks_set st = s'"
    by (auto simp: PreservedMarksSet_restore_def split: sum.splits if_splits)
  from r obtain st1 where
    a: "run_schedule atomic_add (schedule gang) (ParRestoreTask_new (active_workers gang) s h 0) = Inr st1"
    and b: "finish_workers atomic_add [0..<active_workers gang] st1 = Inr st"
    by (auto simp: run_task_def split: sum.splits)
  from run_schedule_frame [OF a] finish_workers_frame [OF b] m show ?thesis
    by (simp add: ParRestoreTask_new_def)
qed

section \<open>The outcome of a restore of the set\<close>

lemma sum_list_size_marks:
  "sum_list (map size_marks xs) = (of_nat (\<Sum>p\<leftarrow>xs. length (entries p)) :: size_t)"
  by (induction xs) (simp_all add: size_marks_def stack_size_def)

lemma with_slots_Some:
  "stacks s = Some arr \<Longrightarrow> with_slots s xs = s\<lparr>stacks := Some (arr\<lparr>slots := xs\<rparr>)\<rparr>"
  by (simp add: with_slots_def)

lemma with_slots_same: "stacks s = Some arr \<Longrightarrow> with_slots s (slots arr) = s"
  by (simp add: with_slots_def)

lemma assert_empty_with_slots:
  assumes "stacks s \<noteq> None" "0 < num s" "num s = length xs"
    and "\<forall>p \<in> set xs. stack_is_empty p \<and> cache_size p = 0"
  shows "PreservedMarksSet_assert_empty (with_slots s xs) = Inr ()"
  using assms
  by (auto simp: PreservedMarksSet_assert_empty_Inr with_slots_def)

lemma emptied_id: "stack_is_empty p \<Longrightarrow> emptied p = p"
  by (simp add: emptied_def stack_is_empty_def)

lemma map_emptied_id: "\<forall>p \<in> set xs. stack_is_empty p \<Longrightarrow> map emptied xs = xs"
  by (induction xs) (simp_all add: emptied_id)

lemma fold_restore_empty:
  "\<forall>p \<in> set xs. stack_is_empty p \<Longrightarrow> fold (\<lambda>p. fold set_mark (entries p)) xs h = h"
  by (induction xs) (simp_all add: stack_is_empty_def)

lemma sum_sizes_empty:
  "\<forall>p \<in> set xs. stack_is_empty p \<Longrightarrow> sum_list (map size_marks xs) = 0"
  by (induction xs) (simp_all add: stack_is_empty_def size_marks_def stack_size_def)

lemma restore_path_outcome:
  assumes s: "stacks s = Some arr" "num s = length (slots arr)"
    and c: "\<forall>p \<in> set (slots arr). cache_size p = 0"
  shows "\<exists>k \<le> length (slots arr).
           (case workers of
              None \<Rightarrow> sequential_loop s h 0 0
            | Some gang \<Rightarrow>
                (case run_task Atomic_add gang (ParRestoreTask_new (active_workers gang) s h 0) of
                   Inl e \<Rightarrow> Inl e
                 | Inr st \<Rightarrow> Inr (marks_set st, heap_now st, total_now st)))
           = Inr (with_slots s (map emptied (take k (slots arr)) @ drop k (slots arr)),
                  fold (\<lambda>p. fold set_mark (entries p)) (take k (slots arr)) h,
                  sum_list (map size_marks (take k (slots arr))))
         \<and> (workers = None \<or> (\<exists>gang. workers = Some gang \<and> 0 < active_workers gang)
              \<longrightarrow> k = length (slots arr))"
proof (cases workers)
  case None
  have "sequential_loop (with_slots s ([] @ slots arr)) h (length ([] :: PreservedMarks list)) 0 =
          Inr (with_slots s ([] @ map emptied (slots arr)),
               fold (\<lambda>p. fold set_mark (entries p)) (slots arr) h,
               0 + sum_list (map size_marks (slots arr)))"
    using s c by (intro sequential_loop_eq) simp_all
  with None s show ?thesis
    by (intro exI [of _ "length (slots arr)"]) (simp add: with_slots_same)
next
  case (Some gang)
  have "set_slots s = slots arr"
    using s by (simp add: set_slots_def)
  from run_task_inv [of s "slots arr" gang h] s c this
  obtain st where r: "run_task Atomic_add gang (ParRestoreTask_new (active_workers gang) s h 0) = Inr st"
    and i: "par_inv s (slots arr) h st"
    and k: "0 < active_workers gang \<longrightarrow> n_claimed (sub_tasks st) = length (slots arr)"
    by auto
  from i r k Some show ?thesis
    by (intro exI [of _ "n_claimed (sub_tasks st)"]) (simp add: par_inv_def)
qed

lemma restore_all_claimed:
  assumes s: "stacks s = Some arr" "num s = length (slots arr)" "0 < num s"
    and c: "\<forall>p \<in> set (slots arr). cache_size p = 0"
    and w: "workers = None \<or> (\<exists>gang. workers = Some gang \<and> 0 < active_workers gang)"
  shows "PreservedMarksSet_restore Atomic_add workers s h =
           Inr (sum_list (map size_marks (slots arr)), with_slots s (map emptied (slots arr)),
                fold (\<lambda>p. fold set_mark (entries p)) (slots arr) h)"
proof -
  have b: "size_before_loop s 0 0 = Inr (sum_list (map size_marks (slots arr)))"
    using size_before_loop_eq [of s "[]" "slots arr" 0] s by (simp add: with_slots_same)
  from restore_path_outcome [OF s(1) s(2) c, where workers = workers and h = h] w
  have p: "(case workers of
              None \<Rightarrow> sequential_loop s h 0 0
            | Some gang \<Rightarrow>
                (case run_task Atomic_add gang (ParRestoreTask_new (active_workers gang) s h 0) of
                   Inl e \<Rightarrow> Inl e
                 | Inr st \<Rightarrow> Inr (marks_set st, heap_now st, total_now st)))
           = Inr (with_slots s (map emptied (slots arr)),
                  fold (\<lambda>p. fold set_mark (entries p)) (slots arr) h,
                  sum_list (map size_marks (slots arr)))"
    by auto
  have a: "PreservedMarksSet_assert_empty (with_slots s (map emptied (slots arr))) = Inr ()"
    using s c by (intro assert_empty_with_slots) (auto simp: emptied_def stack_is_empty_def)
  show ?thesis
    unfolding PreservedMarksSet_restore_def b p by (simp add: a)
qed

lemma restore_all_empty:
  assumes s: "stacks s = Some arr" "num s = length (slots arr)" "0 < num s"
    and e: "\<forall>p \<in> set (slots arr). stack_is_empty p \<and> cache_size p = 0"
  shows "PreservedMarksSet_restore Atomic_add workers s h = Inr (0, s, h)"
proof -
  have e1: "\<forall>p \<in> set (slots arr). stack_is_empty p" and c: "\<forall>p \<in> set (slots arr). cache_size p = 0"
    using e by simp_all
  have b: "size_before_loop s 0 0 = Inr 0"
    using size_before_loop_eq [of s "[]" "slots arr" 0] s
    by (simp add: with_slots_same sum_sizes_empty [OF e1])
  from restore_path_outcome [OF s(1) s(2) c, where workers = workers and h = h]
  obtain k where k: "k \<le> length (slots arr)"
    and p: "(case workers of
              None \<Rightarrow> sequential_loop s h 0 0
            | Some gang \<Rightarrow>
                (case run_task Atomic_add gang (ParRestoreTask_new (active_workers gang) s h 0) of
                   Inl e \<Rightarrow> Inl e
                 | Inr st \<Rightarrow> Inr (marks_set st, heap_now st, total_now st)))
           = Inr (with_slots s (map emptied (take k (slots arr)) @ drop k (slots arr)),
                  fold (\<lambda>p. fold set_mark (entries p)) (take k (slots arr)) h,
                  sum_list (map size_marks (take k (slots arr))))"
    by blast
  have tk: "\<forall>p \<in> set (take k (slots arr)). stack_is_empty p"
    using e1 by (meson in_set_takeD)
  have p': "(case workers of
              None \<Rightarrow> sequential_loop s h 0 0
            | Some gang \<Rightarrow>
                (case run_task Atomic_add gang (ParRestoreTask_new (active_workers gang) s h 0) of
                   Inl e \<Rightarrow> Inl e
                 | Inr st \<Rightarrow> Inr (marks_set st, heap_now st, total_now st)))
           = Inr (s, h, 0)"
    unfolding p
    by (simp add: map_emptied_id [OF tk] fold_restore_empty [OF tk] sum_sizes_empty [OF tk]
          with_slots_same [OF s(1)])
  have a: "PreservedMarksSet_assert_empty s = Inr ()"
    using assert_empty_with_slots [of s "slots arr"] s e by (simp add: with_slots_same)
  show ?thesis
    unfolding PreservedMarksSet_restore_def b p' by (simp add: a)
qed

lemma restore_result_empty:
  assumes s: "stacks s = Some arr" "num s = length (slots arr)"
    and c: "\<forall>p \<in> set (slots arr). cache_size p = 0"
    and r: "PreservedMarksSet_restore Atomic_add workers s h = Inr (t, s', h')"
  shows "\<exists>arr'. stacks s' = Some arr' \<and> num s' = length (slots arr') \<and> 0 < num s'
           \<and> (\<forall>p \<in> set (slots arr'). stack_is_empty p \<and> cache_size p = 0)"
proof -
  from restore_path_outcome [OF s(1) s(2) c, where workers = workers and h = h]
  obtain k where k: "k \<le> length (slots arr)"
    and p: "(case workers of
              None \<Rightarrow> sequential_loop s h 0 0
            | Some gang \<Rightarrow>
                (case run_task Atomic_add gang (ParRestoreTask_new (active_workers gang) s h 0) of
                   Inl e \<Rightarrow> Inl e
                 | Inr st \<Rightarrow> Inr (marks_set st, heap_now st, total_now st)))
           = Inr (with_slots s (map emptied (take k (slots arr)) @ drop k (slots arr)),
                  fold (\<lambda>p. fold set_mark (entries p)) (take k (slots arr)) h,
                  sum_list (map size_marks (take k (slots arr))))"
    by blast
  let ?xs = "map emptied (take k (slots arr)) @ drop k (slots arr)"
  from r have s': "s' = with_slots s ?xs"
    and a: "PreservedMarksSet_assert_empty s' = Inr ()"
    unfolding PreservedMarksSet_restore_def p
    by (auto split: sum.splits if_splits)
  have st: "stacks s' = Some (arr\<lparr>slots := ?xs\<rparr>)" and n: "num s' = num s"
    using s(1) by (simp_all add: s' with_slots_def)
  have len: "length ?xs = length (slots arr)"
    using k by simp
  from a st have "0 < num s'"
    and "\<forall>j < num s'. stack_is_empty (?xs ! j) \<and> cache_size (?xs ! j) = 0"
    by (simp_all add: PreservedMarksSet_assert_empty_Inr)
  then have "\<forall>p \<in> set ?xs. stack_is_empty p \<and> cache_size p = 0"
    using n s(2) len by (metis in_set_conv_nth)
  with st n s(2) len \<open>0 < num s'\<close> show ?thesis by simp
qed

section \<open>The claims about the set\<close>

lemma unat_sum_sizes:
  "(\<Sum>p\<leftarrow>xs. length (entries p)) < 2 ^ 64 \<Longrightarrow>
   unat (sum_list (map size_marks xs)) = (\<Sum>p\<leftarrow>xs. length (entries p))"
  by (simp add: sum_list_size_marks unat_of_nat)

text \<open>
  C2. Take a set whose array has \<open>num > 0\<close> slots, none with a cached segment.
  The sequential path and the parallel path, with any gang of at least one
  active worker and any schedule of their turns, both return, with the same
  total, the sum of the sizes of the slots (in \<^verbatim>\<open>size_t\<close> arithmetic, and as a
  number when the entries are fewer than \<open>2 ^ 64\<close>), and with the same set, in
  which every slot is empty.
\<close>

theorem restore_paths_tally:
  assumes "stacks s = Some arr" and "num s = length (slots arr)" and "0 < num s"
    and "\<forall>p \<in> set (slots arr). cache_size p = 0"
    and "workers = None \<or> (\<exists>gang. workers = Some gang \<and> 0 < active_workers gang)"
  shows "\<exists>h'. PreservedMarksSet_restore Atomic_add workers s h =
             Inr (sum_list (map size_marks (slots arr)),
                  s\<lparr>stacks := Some (arr\<lparr>slots := map (\<lambda>p. p\<lparr>entries := []\<rparr>) (slots arr)\<rparr>)\<rparr>,
                  h')
           \<and> ((\<Sum>p\<leftarrow>slots arr. length (entries p)) < 2 ^ 64 \<longrightarrow>
                unat (sum_list (map size_marks (slots arr)))
                  = (\<Sum>p\<leftarrow>slots arr. length (entries p)))"
proof -
  have e: "map emptied (slots arr) = map (\<lambda>p. p\<lparr>entries := []\<rparr>) (slots arr)"
    by (simp add: emptied_def)
  from restore_all_claimed [OF assms, of h] unat_sum_sizes [of "slots arr"]
  show ?thesis
    by (simp add: with_slots_Some [OF assms(1)] e)
qed

theorem restore_paths_tally_witness:
  "(let arr = \<lparr>arena = CHeap,
               slots = [pushes [(8, 5), (16, 7)] PreservedMarks_new, push 24 9 PreservedMarks_new]\<rparr>;
        s = \<lparr>in_c_heap = True, num = 2, stacks = Some arr\<rparr>;
        s' = \<lparr>in_c_heap = True, num = 2,
              stacks = Some \<lparr>arena = CHeap, slots = [PreservedMarks_new, PreservedMarks_new]\<rparr>\<rparr>
    in num s = length (slots arr) \<and> 0 < num s
     \<and> cache_size (slots arr ! 0) = 0 \<and> cache_size (slots arr ! 1) = 0
     \<and> size_marks (slots arr ! 0) = 2 \<and> size_marks (slots arr ! 1) = 1
     \<and> (\<exists>h'. PreservedMarksSet_restore Atomic_add None s (\<lambda>_. 0) = Inr (3, s', h'))
     \<and> (\<exists>h'. PreservedMarksSet_restore Atomic_add
                 (Some \<lparr>active_workers = 1, schedule = []\<rparr>) s (\<lambda>_. 0) = Inr (3, s', h'))
     \<and> (\<exists>h'. PreservedMarksSet_restore Atomic_add
                 (Some \<lparr>active_workers = 2, schedule = [1, 0, 1]\<rparr>) s (\<lambda>_. 0) = Inr (3, s', h')))"
  using restore_paths_tally
          [where s = "\<lparr>in_c_heap = True, num = 2, stacks = Some \<lparr>arena = CHeap,
               slots = [pushes [(8, 5), (16, 7)] PreservedMarks_new, push 24 9 PreservedMarks_new]\<rparr>\<rparr>"
             and arr = "\<lparr>arena = CHeap,
               slots = [pushes [(8, 5), (16, 7)] PreservedMarks_new, push 24 9 PreservedMarks_new]\<rparr>"
             and workers = None and h = "\<lambda>_. 0"]
        restore_paths_tally
          [where s = "\<lparr>in_c_heap = True, num = 2, stacks = Some \<lparr>arena = CHeap,
               slots = [pushes [(8, 5), (16, 7)] PreservedMarks_new, push 24 9 PreservedMarks_new]\<rparr>\<rparr>"
             and arr = "\<lparr>arena = CHeap,
               slots = [pushes [(8, 5), (16, 7)] PreservedMarks_new, push 24 9 PreservedMarks_new]\<rparr>"
             and workers = "Some \<lparr>active_workers = 1, schedule = []\<rparr>" and h = "\<lambda>_. 0"]
        restore_paths_tally
          [where s = "\<lparr>in_c_heap = True, num = 2, stacks = Some \<lparr>arena = CHeap,
               slots = [pushes [(8, 5), (16, 7)] PreservedMarks_new, push 24 9 PreservedMarks_new]\<rparr>\<rparr>"
             and arr = "\<lparr>arena = CHeap,
               slots = [pushes [(8, 5), (16, 7)] PreservedMarks_new, push 24 9 PreservedMarks_new]\<rparr>"
             and workers = "Some \<lparr>active_workers = 2, schedule = [1, 0, 1]\<rparr>" and h = "\<lambda>_. 0"]
  by (simp add: Let_def push_def stack_push_def PreservedMarks_new_def stack_new_def
        size_marks_def stack_size_def)

lemma PreservedMarksSet_reclaim_Inr:
  "PreservedMarksSet_reclaim s = Inr s' \<longleftrightarrow>
     PreservedMarksSet_assert_empty s = Inr () \<and> s' = s\<lparr>stacks := None, num := 0\<rparr>"
  by (auto simp: PreservedMarksSet_reclaim_def split: sum.splits)

text \<open>
  C8. Take a set whose array has \<open>num > 0\<close> slots, none with a cached segment.
  When every slot is empty, the restore of the set, on either path and with any
  gang, returns the total 0 and leaves the set and the heap as they were; and
  after a restore that has returned, a second restore (on either path) returns
  the total 0 and changes nothing.
\<close>

theorem empty_restore_idempotent:
  assumes "stacks s = Some arr" and "num s = length (slots arr)" and "0 < num s"
    and "\<forall>p \<in> set (slots arr). cache_size p = 0"
  shows "((\<forall>p \<in> set (slots arr). stack_is_empty p) \<longrightarrow>
            PreservedMarksSet_restore Atomic_add workers s h = Inr (0, s, h))
       \<and> (PreservedMarksSet_restore Atomic_add workers s h = Inr (t, s', h') \<longrightarrow>
            PreservedMarksSet_restore Atomic_add workers' s' h' = Inr (0, s', h'))"
proof (intro conjI impI)
  assume "\<forall>p \<in> set (slots arr). stack_is_empty p"
  with assms(4) have "\<forall>p \<in> set (slots arr). stack_is_empty p \<and> cache_size p = 0"
    by simp
  from restore_all_empty [OF assms(1) assms(2) assms(3) this]
  show "PreservedMarksSet_restore Atomic_add workers s h = Inr (0, s, h)" .
next
  assume "PreservedMarksSet_restore Atomic_add workers s h = Inr (t, s', h')"
  from restore_result_empty [OF assms(1) assms(2) assms(4) this]
  obtain arr' where "stacks s' = Some arr'" "num s' = length (slots arr')" "0 < num s'"
    "\<forall>p \<in> set (slots arr'). stack_is_empty p \<and> cache_size p = 0"
    by blast
  then show "PreservedMarksSet_restore Atomic_add workers' s' h' = Inr (0, s', h')"
    by (rule restore_all_empty)
qed

theorem empty_restore_idempotent_witness:
  "(let e = \<lparr>in_c_heap = False, num = 2,
              stacks = Some \<lparr>arena = ResourceArea,
                             slots = [PreservedMarks_new, PreservedMarks_new]\<rparr>\<rparr>;
        s = \<lparr>in_c_heap = False, num = 2,
              stacks = Some \<lparr>arena = ResourceArea,
                             slots = [pushes [(8, 5), (16, 7)] PreservedMarks_new,
                                      push 24 9 PreservedMarks_new]\<rparr>\<rparr>;
        gang = \<lparr>active_workers = 2, schedule = [1, 0, 1]\<rparr>;
        h = (\<lambda>_. 0)(16 := 7, 8 := 5, 24 := 9)
    in stack_is_empty PreservedMarks_new \<and> cache_size PreservedMarks_new = 0
     \<and> PreservedMarksSet_restore Atomic_add None e (\<lambda>_. 0) = Inr (0, e, \<lambda>_. 0)
     \<and> PreservedMarksSet_restore Atomic_add (Some gang) e (\<lambda>_. 0) = Inr (0, e, \<lambda>_. 0)
     \<and> PreservedMarksSet_restore Atomic_add None s (\<lambda>_. 0) = Inr (3, e, h)
     \<and> PreservedMarksSet_restore Atomic_add (Some gang) e h = Inr (0, e, h))"
proof -
  let ?ea = "\<lparr>arena = ResourceArea, slots = [PreservedMarks_new, PreservedMarks_new]\<rparr>"
  let ?e = "\<lparr>in_c_heap = False, num = 2, stacks = Some ?ea\<rparr>"
  let ?sa = "\<lparr>arena = ResourceArea,
              slots = [pushes [(8, 5), (16, 7)] PreservedMarks_new, push 24 9 PreservedMarks_new]\<rparr>"
  let ?s = "\<lparr>in_c_heap = False, num = 2, stacks = Some ?sa\<rparr>"
  let ?gang = "\<lparr>active_workers = 2, schedule = [1, 0, 1]\<rparr>"
  let ?z = "(\<lambda>_. 0) :: heap"
  let ?h = "(\<lambda>_. 0)(16 := 7, 8 := 5, 24 := 9) :: heap"
  have n: "stack_is_empty PreservedMarks_new" "cache_size PreservedMarks_new = 0"
    by (simp_all add: PreservedMarks_new_def stack_new_def stack_is_empty_def)
  have ce: "\<forall>p \<in> set (slots ?ea). cache_size p = 0" and ee: "\<forall>p \<in> set (slots ?ea). stack_is_empty p"
    using n by simp_all
  have cs: "\<forall>p \<in> set (slots ?sa). cache_size p = 0"
    by (simp add: push_def stack_push_def PreservedMarks_new_def stack_new_def)
  have first: "PreservedMarksSet_restore Atomic_add None ?s ?z = Inr (3, ?e, ?h)"
    using restore_all_claimed [where s = ?s and arr = ?sa and workers = None and h = ?z] cs
    by (simp add: with_slots_def emptied_def push_def stack_push_def PreservedMarks_new_def
          stack_new_def size_marks_def stack_size_def set_mark_def)
  note w1 = empty_restore_idempotent
      [where s = ?e and arr = ?ea and workers = None and h = ?z]
  have a: "PreservedMarksSet_restore Atomic_add None ?e ?z = Inr (0, ?e, ?z)"
    using w1 ce ee by simp
  note w2 = empty_restore_idempotent
      [where s = ?e and arr = ?ea and workers = "Some ?gang" and h = ?z]
  have b: "PreservedMarksSet_restore Atomic_add (Some ?gang) ?e ?z = Inr (0, ?e, ?z)"
    using w2 ce ee by simp
  note w3 = empty_restore_idempotent
      [where s = ?s and arr = ?sa and workers = None and h = ?z and t = 3 and s' = ?e
         and h' = ?h and workers' = "Some ?gang"]
  have c: "PreservedMarksSet_restore Atomic_add (Some ?gang) ?e ?h = Inr (0, ?e, ?h)"
    using w3 cs first by simp
  from n a b first c show ?thesis
    unfolding Let_def by (intro conjI)
qed

text \<open>
  C4. \<^verbatim>\<open>init\<close> with a worker count of zero fails an assertion (the pre-condition
  one on a set that is not initialized); \<^verbatim>\<open>init\<close> on a set that is initialized
  fails "do not re-initialize", so a second \<^verbatim>\<open>init\<close> after one that returned
  fails; \<^verbatim>\<open>reclaim\<close> fails an assertion when a slot is not empty; and on a set
  that is not initialized \<^verbatim>\<open>init\<close> with a positive count returns a set whose
  \<open>num\<close> is that count and whose slots, as many, are all empty.
\<close>

theorem lifecycle_preconditions:
  "isl (PreservedMarksSet_init 0 s)
   \<and> (stacks s = None \<and> num s = 0 \<longrightarrow> PreservedMarksSet_init 0 s = Inl PreCondition)
   \<and> (stacks s \<noteq> None \<or> num s \<noteq> 0 \<longrightarrow> PreservedMarksSet_init n s = Inl DoNotReinitialize)
   \<and> (PreservedMarksSet_init n s = Inr s' \<longrightarrow>
         PreservedMarksSet_init m s' = Inl DoNotReinitialize)
   \<and> (stacks s = Some arr \<and> i < num s \<and> i < length (slots arr)
        \<and> \<not> stack_is_empty (slots arr ! i) \<longrightarrow> isl (PreservedMarksSet_reclaim s))
   \<and> (stacks s = None \<and> num s = 0 \<and> 0 < n \<longrightarrow>
         (\<exists>s' arr'. PreservedMarksSet_init n s = Inr s' \<and> num s' = n
            \<and> stacks s' = Some arr' \<and> length (slots arr') = n
            \<and> (\<forall>p \<in> set (slots arr'). stack_is_empty p \<and> cache_size p = 0)))"
proof -
  have r: "isl (PreservedMarksSet_reclaim s)"
    if "stacks s = Some arr" "i < num s" "i < length (slots arr)"
       "\<not> stack_is_empty (slots arr ! i)"
  proof (cases "PreservedMarksSet_reclaim s")
    case (Inl e)
    then show ?thesis by simp
  next
    case (Inr s1)
    then have "PreservedMarksSet_assert_empty s = Inr ()"
      by (simp add: PreservedMarksSet_reclaim_Inr)
    with that show ?thesis
      by (auto simp: PreservedMarksSet_assert_empty_Inr)
  qed
  have twice: "PreservedMarksSet_init m s' = Inl DoNotReinitialize"
    if "PreservedMarksSet_init n s = Inr s'"
    using that by (auto simp: PreservedMarksSet_init_eq split: if_splits)
  show ?thesis
    using r twice
    by (auto simp: PreservedMarksSet_init_eq PreservedMarks_new_def stack_new_def
          stack_is_empty_def)
qed

theorem lifecycle_preconditions_witness:
  "(let s1 = \<lparr>in_c_heap = True, num = 2,
               stacks = Some \<lparr>arena = CHeap, slots = [PreservedMarks_new, PreservedMarks_new]\<rparr>\<rparr>;
        arr = \<lparr>arena = CHeap, slots = [push 8 5 PreservedMarks_new, PreservedMarks_new]\<rparr>;
        s2 = \<lparr>in_c_heap = True, num = 2, stacks = Some arr\<rparr>
    in PreservedMarksSet_init 0 (PreservedMarksSet_new True) = Inl PreCondition
     \<and> PreservedMarksSet_init 2 (PreservedMarksSet_new True) = Inr s1
     \<and> PreservedMarksSet_init 3 s1 = Inl DoNotReinitialize
     \<and> PreservedMarksSet_init 0 s1 = Inl DoNotReinitialize
     \<and> \<not> stack_is_empty (slots arr ! 0)
     \<and> isl (PreservedMarksSet_reclaim s2))"
proof -
  let ?s0 = "PreservedMarksSet_new True"
  let ?s1 = "\<lparr>in_c_heap = True, num = 2,
               stacks = Some \<lparr>arena = CHeap, slots = [PreservedMarks_new, PreservedMarks_new]\<rparr>\<rparr>"
  let ?arr = "\<lparr>arena = CHeap, slots = [push 8 5 PreservedMarks_new, PreservedMarks_new]\<rparr>"
  let ?s2 = "\<lparr>in_c_heap = True, num = 2, stacks = Some ?arr\<rparr>"
  have r2: "replicate 2 PreservedMarks_new = [PreservedMarks_new, PreservedMarks_new]"
    by (simp add: numeral_2_eq_2)
  have i: "PreservedMarksSet_init 2 ?s0 = Inr ?s1"
    by (simp add: PreservedMarksSet_init_eq PreservedMarksSet_new_def r2)
  have a: "PreservedMarksSet_init 0 ?s0 = Inl PreCondition"
    using lifecycle_preconditions [where s = ?s0]
    by (simp add: PreservedMarksSet_new_def)
  have b: "PreservedMarksSet_init 3 ?s1 = Inl DoNotReinitialize"
    using i lifecycle_preconditions [where s = ?s0 and n = 2 and s' = ?s1 and m = 3]
    by simp
  have c: "PreservedMarksSet_init 0 ?s1 = Inl DoNotReinitialize"
    using lifecycle_preconditions [where s = ?s1 and n = 0]
    by simp
  have d: "\<not> stack_is_empty (slots ?arr ! 0)"
    by (simp add: push_def stack_push_def stack_is_empty_def)
  have e: "isl (PreservedMarksSet_reclaim ?s2)"
    using d lifecycle_preconditions [where s = ?s2 and arr = ?arr and i = 0]
    by simp
  from a i b c d e show ?thesis
    unfolding Let_def by (intro conjI)
qed

text \<open>
  C5. A new set satisfies the invariant "\<open>num\<close> is 0 iff the array pointer is
  null". \<^verbatim>\<open>init\<close> establishes it with \<open>num > 0\<close> and an array; \<^verbatim>\<open>restore\<close> (either
  path) and a write to a slot preserve it; \<^verbatim>\<open>reclaim\<close> establishes it with
  \<open>num = 0\<close> and a null pointer, after which \<^verbatim>\<open>init\<close> with a positive count
  returns again.
\<close>

theorem initialization_invariant_preserved:
  "initialization_invariant (PreservedMarksSet_new flag)
   \<and> (PreservedMarksSet_init n s = Inr s' \<longrightarrow>
         initialization_invariant s' \<and> 0 < num s' \<and> stacks s' \<noteq> None)
   \<and> (initialization_invariant s
        \<and> PreservedMarksSet_restore atomic_add workers s h = Inr (t, s', h') \<longrightarrow>
         initialization_invariant s')
   \<and> (initialization_invariant s \<longrightarrow> initialization_invariant (put s i p))
   \<and> (PreservedMarksSet_reclaim s = Inr s' \<longrightarrow>
         initialization_invariant s' \<and> num s' = 0 \<and> stacks s' = None
         \<and> (0 < n \<longrightarrow> (\<exists>s''. PreservedMarksSet_init n s' = Inr s'')))"
proof -
  have f: "initialization_invariant b" if "initialization_invariant a" "set_frame b = set_frame a"
    for a b
    using that by (auto simp: initialization_invariant_def set_frame_def)
  have a: "initialization_invariant s'"
    if "initialization_invariant s"
       "PreservedMarksSet_restore atomic_add workers s h = Inr (t, s', h')"
    using f [OF that(1) PreservedMarksSet_restore_frame [OF that(2)]] .
  have b: "initialization_invariant (put s i p)" if "initialization_invariant s"
    using f [OF that set_frame_put] .
  have c: "initialization_invariant s' \<and> 0 < num s' \<and> stacks s' \<noteq> None"
    if "PreservedMarksSet_init n s = Inr s'"
    using that by (auto simp: PreservedMarksSet_init_eq initialization_invariant_def split: if_splits)
  have d: "initialization_invariant s' \<and> num s' = 0 \<and> stacks s' = None
         \<and> (0 < n \<longrightarrow> (\<exists>s''. PreservedMarksSet_init n s' = Inr s''))"
    if "PreservedMarksSet_reclaim s = Inr s'"
    using that
    by (auto simp: PreservedMarksSet_reclaim_Inr PreservedMarksSet_init_eq
          initialization_invariant_def)
  have e: "initialization_invariant (PreservedMarksSet_new flag)"
    by (simp add: initialization_invariant_def PreservedMarksSet_new_def)
  from a b c d e show ?thesis by blast
qed

theorem initialization_invariant_preserved_witness:
  "(let s0 = PreservedMarksSet_new True;
        s1 = \<lparr>in_c_heap = True, num = 2,
               stacks = Some \<lparr>arena = CHeap, slots = [PreservedMarks_new, PreservedMarks_new]\<rparr>\<rparr>;
        s2 = \<lparr>in_c_heap = True, num = 2,
               stacks = Some \<lparr>arena = CHeap,
                              slots = [PreservedMarks_new, push 24 9 PreservedMarks_new]\<rparr>\<rparr>
    in initialization_invariant s0
     \<and> PreservedMarksSet_init 2 s0 = Inr s1
     \<and> initialization_invariant s1 \<and> 0 < num s1 \<and> stacks s1 \<noteq> None
     \<and> put s1 1 (push 24 9 PreservedMarks_new) = s2
     \<and> initialization_invariant s2
     \<and> PreservedMarksSet_restore Atomic_add None s2 (\<lambda>_. 0) = Inr (1, s1, (\<lambda>_. 0)(24 := 9))
     \<and> PreservedMarksSet_reclaim s1 = Inr s0
     \<and> num s0 = 0 \<and> stacks s0 = None
     \<and> (\<exists>s''. PreservedMarksSet_init 4 s0 = Inr s''))"
proof -
  let ?s0 = "PreservedMarksSet_new True"
  let ?a1 = "\<lparr>arena = CHeap, slots = [PreservedMarks_new, PreservedMarks_new]\<rparr>"
  let ?s1 = "\<lparr>in_c_heap = True, num = 2, stacks = Some ?a1\<rparr>"
  let ?a2 = "\<lparr>arena = CHeap, slots = [PreservedMarks_new, push 24 9 PreservedMarks_new]\<rparr>"
  let ?s2 = "\<lparr>in_c_heap = True, num = 2, stacks = Some ?a2\<rparr>"
  let ?h = "(\<lambda>_. 0)(24 := 9) :: heap"
  have r2: "replicate 2 PreservedMarks_new = [PreservedMarks_new, PreservedMarks_new]"
    by (simp add: numeral_2_eq_2)
  have i: "PreservedMarksSet_init 2 ?s0 = Inr ?s1"
    by (simp add: PreservedMarksSet_init_eq PreservedMarksSet_new_def r2)
  have p: "put ?s1 1 (push 24 9 PreservedMarks_new) = ?s2"
    by (simp add: put_def)
  have c2: "\<forall>p \<in> set (slots ?a2). cache_size p = 0"
    by (simp add: push_def stack_push_def PreservedMarks_new_def stack_new_def)
  have r: "PreservedMarksSet_restore Atomic_add None ?s2 (\<lambda>_. 0) = Inr (1, ?s1, ?h)"
    using restore_all_claimed [where s = ?s2 and arr = ?a2 and workers = None and h = "\<lambda>_. 0"] c2
    by (simp add: with_slots_def emptied_def push_def stack_push_def PreservedMarks_new_def
          stack_new_def size_marks_def stack_size_def set_mark_def)
  have e1: "PreservedMarksSet_assert_empty ?s1 = Inr ()"
    using assert_empty_with_slots [where s = ?s1 and xs = "slots ?a1"]
    by (simp add: with_slots_def PreservedMarks_new_def stack_new_def stack_is_empty_def)
  have c: "PreservedMarksSet_reclaim ?s1 = Inr ?s0"
    by (simp add: PreservedMarksSet_reclaim_Inr e1 PreservedMarksSet_new_def)
  have a0: "initialization_invariant ?s0"
    using initialization_invariant_preserved [where flag = True] by simp
  have a1: "initialization_invariant ?s1 \<and> 0 < num ?s1 \<and> stacks ?s1 \<noteq> None"
    using i initialization_invariant_preserved [where s = ?s0 and n = 2 and s' = ?s1] by blast
  have a2: "initialization_invariant ?s2"
    using a1 p initialization_invariant_preserved
                 [where s = ?s1 and i = 1 and p = "push 24 9 PreservedMarks_new"]
    by simp
  have a3: "initialization_invariant ?s1"
    using a2 r initialization_invariant_preserved
                 [where s = ?s2 and atomic_add = Atomic_add and workers = None
                    and h = "\<lambda>_. 0" and t = 1 and s' = ?s1 and h' = ?h]
    by blast
  have a4: "initialization_invariant ?s0 \<and> num ?s0 = 0 \<and> stacks ?s0 = None
            \<and> (\<exists>s''. PreservedMarksSet_init 4 ?s0 = Inr s'')"
    using c initialization_invariant_preserved [where s = ?s1 and s' = ?s0 and n = 4]
    by simp
  from a0 i a1 p a2 r c a4 show ?thesis
    unfolding Let_def by (intro conjI) simp_all
qed

text \<open>
  C10. A \<^verbatim>\<open>reclaim\<close> that returns has changed the array pointer and the count
  and nothing else; the allocation flag is the one the set had. An \<^verbatim>\<open>init\<close>
  that follows allocates the array in the arena that the flag names, which is
  the arena of the array that an earlier \<^verbatim>\<open>init\<close> had allocated for the set.
\<close>

theorem reclaim_frame:
  assumes "PreservedMarksSet_reclaim s = Inr s'"
  shows "s' = s\<lparr>stacks := None, num := 0\<rparr>
       \<and> in_c_heap s' = in_c_heap s
       \<and> (0 < n \<longrightarrow>
            (\<exists>s'' arr''. PreservedMarksSet_init n s' = Inr s'' \<and> stacks s'' = Some arr''
               \<and> arena arr'' = (if in_c_heap s then CHeap else ResourceArea)
               \<and> in_c_heap s'' = in_c_heap s
               \<and> (PreservedMarksSet_init n0 s0 = Inr s \<longrightarrow>
                    map_option arena (stacks s) = Some (arena arr''))))"
  using assms
  by (auto simp: PreservedMarksSet_reclaim_Inr PreservedMarksSet_init_eq split: if_splits)

theorem reclaim_frame_witness:
  "(let s0 = PreservedMarksSet_new False;
        s1 = \<lparr>in_c_heap = False, num = 2,
               stacks = Some \<lparr>arena = ResourceArea,
                              slots = [PreservedMarks_new, PreservedMarks_new]\<rparr>\<rparr>
    in PreservedMarksSet_init 2 s0 = Inr s1
     \<and> PreservedMarksSet_reclaim s1 = Inr s0
     \<and> s0 = s1\<lparr>stacks := None, num := 0\<rparr>
     \<and> in_c_heap s0 = in_c_heap s1
     \<and> (\<exists>s'' arr''. PreservedMarksSet_init 3 s0 = Inr s'' \<and> stacks s'' = Some arr''
            \<and> arena arr'' = ResourceArea \<and> \<not> in_c_heap s''
            \<and> map_option arena (stacks s1) = Some (arena arr'')))"
proof -
  let ?s0 = "PreservedMarksSet_new False"
  let ?a1 = "\<lparr>arena = ResourceArea, slots = [PreservedMarks_new, PreservedMarks_new]\<rparr>"
  let ?s1 = "\<lparr>in_c_heap = False, num = 2, stacks = Some ?a1\<rparr>"
  have r2: "replicate 2 PreservedMarks_new = [PreservedMarks_new, PreservedMarks_new]"
    by (simp add: numeral_2_eq_2)
  have i: "PreservedMarksSet_init 2 ?s0 = Inr ?s1"
    by (simp add: PreservedMarksSet_init_eq PreservedMarksSet_new_def r2)
  have e1: "PreservedMarksSet_assert_empty ?s1 = Inr ()"
    using assert_empty_with_slots [where s = ?s1 and xs = "slots ?a1"]
    by (simp add: with_slots_def PreservedMarks_new_def stack_new_def stack_is_empty_def)
  have c: "PreservedMarksSet_reclaim ?s1 = Inr ?s0"
    by (simp add: PreservedMarksSet_reclaim_Inr e1 PreservedMarksSet_new_def)
  note rf = reclaim_frame [OF c, where n = 3 and ?n0.0 = 2 and ?s0.0 = ?s0]
  have f1: "?s0 = ?s1\<lparr>stacks := None, num := 0\<rparr>" and f2: "in_c_heap ?s0 = in_c_heap ?s1"
    using rf by blast+
  have pos: "(0 :: nat) < 3" by simp
  from rf pos i
  have "\<exists>s'' arr''. PreservedMarksSet_init 3 ?s0 = Inr s'' \<and> stacks s'' = Some arr''
          \<and> arena arr'' = (if in_c_heap ?s1 then CHeap else ResourceArea)
          \<and> in_c_heap s'' = in_c_heap ?s1
          \<and> map_option arena (stacks ?s1) = Some (arena arr'')"
    by blast
  then have f3: "\<exists>s'' arr''. PreservedMarksSet_init 3 ?s0 = Inr s'' \<and> stacks s'' = Some arr''
            \<and> arena arr'' = ResourceArea \<and> \<not> in_c_heap s''
            \<and> map_option arena (stacks ?s1) = Some (arena arr'')"
    by simp
  from i c f1 f2 f3 show ?thesis
    unfolding Let_def by (intro conjI)
qed

end
